theory Spec2Isabelle
  imports Complex_Main "HOL-Library.Word" "HOL-Library.Stream" "HOL-Library.Log_Nat"
begin

unbundle bit_operations_syntax

section \<open>batchskl: an arena-backed skiplist over external keys (skl.go)\<close>

text \<open>
  The embedding follows \<^verbatim>\<open>src/batchskl/skl.go\<close> on a 64-bit little-endian
  target (amd64, arm64): \<^verbatim>\<open>int\<close> has 64 bits, \<^verbatim>\<open>unsafe.Sizeof(links{})\<close> is 8
  and \<^verbatim>\<open>unsafe.Sizeof(node{})\<close> is 176 (a 4-byte key, 4 bytes of padding, the
  8-byte prefix, then 20 link pairs of 8 bytes).

  The arena \<^verbatim>\<open>nodes []byte\<close> is a Go slice: a backing array, a length and a
  capacity. The backing array is the byte list \<open>nodes\<close> (its length is the
  capacity) and \<open>len_nodes\<close> is the slice length. A node is not a value of its
  own: it is the bytes found at its offset, read and written through
  \<^verbatim>\<open>unsafe.Pointer\<close>, so every accessor is a load or a store on the byte list.
\<close>

subsection \<open>Types and constants\<close>

type_synonym byte = "8 word"
type_synonym u32 = "32 word"
type_synonym KeyPrefix = "64 word"

definition maxHeight :: nat where
  "maxHeight = 20"

definition linksSize :: nat where
  "linksSize = 8"

definition maxNodeSize :: nat where
  "maxNodeSize = 176"

definition keyPrefixSize :: nat where
  "keyPrefixSize = 8"

text \<open>Byte offsets of the fields of \<^verbatim>\<open>node\<close> and of \<^verbatim>\<open>links\<close>.\<close>

definition off_key :: nat where
  "off_key = 0"

definition off_prefix :: nat where
  "off_prefix = 8"

definition off_links :: nat where
  "off_links = 16"

definition off_next :: nat where
  "off_next = 0"

definition off_prev :: nat where
  "off_prev = 4"

text \<open>
  What stops a call: a bounds check of the Go runtime (\<open>IndexOutOfRange\<close>), the
  explicit panic of \<^verbatim>\<open>newNode\<close> (\<open>HeightOutOfRange\<close>), a \<^verbatim>\<open>make\<close> whose length
  exceeds its capacity or whose capacity exceeds what the allocator accepts
  (\<open>MakeSliceOutOfRange\<close>), and an access through an unsafe
  pointer that leaves the backing array (\<open>OutsideBackingArray\<close>: Go leaves it
  undefined, the model stops there).
\<close>

datatype panic =
    IndexOutOfRange
  | HeightOutOfRange
  | MakeSliceOutOfRange
  | OutsideBackingArray

text \<open>The error value \<^verbatim>\<open>ErrRecordExists\<close>.\<close>

datatype skl_error = ErrRecordExists

record Storage =
  Get :: "u32 \<Rightarrow> byte list"
  Prefix :: "byte list \<Rightarrow> KeyPrefix"
  Compare :: "byte list \<Rightarrow> u32 \<Rightarrow> int"

record Skiplist =
  storage :: Storage
  nodes :: "byte list"
  len_nodes :: nat
  head :: u32
  tail :: u32
  height :: u32

subsection \<open>Little-endian loads and stores on the backing array\<close>

fun load_le :: "byte list \<Rightarrow> nat \<Rightarrow> nat \<Rightarrow> 'a::len word" where
  "load_le m a 0 = 0"
| "load_le m a (Suc n) = ucast (m ! a) OR push_bit 8 (load_le m (Suc a) n)"

fun store_le :: "byte list \<Rightarrow> nat \<Rightarrow> nat \<Rightarrow> 'a::len word \<Rightarrow> byte list" where
  "store_le m a 0 v = m"
| "store_le m a (Suc n) v = store_le (m[a := ucast v]) (Suc a) n (drop_bit 8 v)"

definition read32 :: "Skiplist \<Rightarrow> nat \<Rightarrow> panic + u32" where
  "read32 s a =
     (if a + 4 \<le> length (nodes s) then Inr (load_le (nodes s) a 4)
      else Inl OutsideBackingArray)"

definition read64 :: "Skiplist \<Rightarrow> nat \<Rightarrow> panic + KeyPrefix" where
  "read64 s a =
     (if a + 8 \<le> length (nodes s) then Inr (load_le (nodes s) a 8)
      else Inl OutsideBackingArray)"

definition write32 :: "Skiplist \<Rightarrow> nat \<Rightarrow> u32 \<Rightarrow> panic + Skiplist" where
  "write32 s a v =
     (if a + 4 \<le> length (nodes s) then Inr (s\<lparr>nodes := store_le (nodes s) a 4 v\<rparr>)
      else Inl OutsideBackingArray)"

definition write64 :: "Skiplist \<Rightarrow> nat \<Rightarrow> KeyPrefix \<Rightarrow> panic + Skiplist" where
  "write64 s a v =
     (if a + 8 \<le> length (nodes s) then Inr (s\<lparr>nodes := store_le (nodes s) a 8 v\<rparr>)
      else Inl OutsideBackingArray)"

subsection \<open>The height table and \<^verbatim>\<open>randomHeight\<close>\<close>

text \<open>
  \<^verbatim>\<open>init\<close> fills \<^verbatim>\<open>probabilities\<close> with float64 arithmetic. A positive float64 is
  modelled by a pair \<open>(m, e)\<close> of integers denoting \<open>m * 2 ^ e\<close>, with \<open>m\<close> below
  \<open>2 ^ 53\<close>. A product is exact on the pairs and is then rounded to 53
  significant bits, to nearest and ties to even, as IEEE 754 prescribes (all
  values of \<^verbatim>\<open>init\<close> are far from the subnormal and the overflow range).
\<close>

type_synonym f64 = "int \<times> int"

definition round_half_even :: "int \<Rightarrow> int \<Rightarrow> int" where
  "round_half_even a b =
     (let q = a div b; r = a mod b in
      if 2 * r < b then q
      else if b < 2 * r then q + 1
      else if even q then q else q + 1)"

definition f64_round :: "f64 \<Rightarrow> f64" where
  "f64_round x =
     (case x of (m, e) \<Rightarrow>
        let k = bitlen m - 53 in
        if k \<le> 0 then (m, e) else (round_half_even m (2 ^ nat k), e + k))"

definition f64_mul :: "f64 \<Rightarrow> f64 \<Rightarrow> f64" where
  "f64_mul x y = (case x of (m1, e1) \<Rightarrow> case y of (m2, e2) \<Rightarrow> f64_round (m1 * m2, e1 + e2))"

text \<open>The conversion \<^verbatim>\<open>uint32(x)\<close> of a float64 truncates towards zero.\<close>

definition f64_to_uint32 :: "f64 \<Rightarrow> u32" where
  "f64_to_uint32 x =
     (case x of (m, e) \<Rightarrow>
        word_of_int (if 0 \<le> e then m * 2 ^ nat e else m div 2 ^ nat (- e)))"

text \<open>
  \<^verbatim>\<open>math.E\<close> is the decimal constant of Go's package \<^verbatim>\<open>math\<close>,
  \<^verbatim>\<open>2.71828182845904523536028747135266249775724709369995957496696763\<close>: its 63
  digits are \<open>math_E_digits\<close>, to be divided by \<open>10 ^ 62\<close>. The untyped constant
  \<^verbatim>\<open>pValue = 1 / math.E\<close> is exact and becomes the nearest float64 where it is
  multiplied with \<^verbatim>\<open>p\<close>; its significand has 53 bits when scaled by \<open>2 ^ 54\<close>.
\<close>

definition math_E_digits :: int where
  "math_E_digits = 271828182845904523536028747135266249775724709369995957496696763"

definition pValue :: f64 where
  "pValue = (round_half_even (2 ^ 54 * 10 ^ 62) math_E_digits, - 54)"

definition MaxUint32 :: int where
  "MaxUint32 = 4294967295"

text \<open>The loop of \<^verbatim>\<open>init\<close>: \<open>n\<close> entries are still to be written and \<open>p\<close> is the current power.\<close>

fun init_loop :: "nat \<Rightarrow> f64 \<Rightarrow> u32 list" where
  "init_loop 0 p = []"
| "init_loop (Suc n) p =
     f64_to_uint32 (f64_mul (MaxUint32, 0) p) # init_loop n (f64_mul p pValue)"

definition probabilities :: "u32 list" where
  "probabilities = init_loop maxHeight (1, 0)"

text \<open>
  \<^verbatim>\<open>rand.Uint32()\<close> is the head of a stream of draws; \<^verbatim>\<open>randomHeight\<close> returns the
  height and the rest of the stream.
\<close>

function randomHeight_loop :: "u32 \<Rightarrow> u32 \<Rightarrow> u32" where
  "randomHeight_loop h rnd =
     (if unat h < maxHeight \<and> rnd \<le> probabilities ! unat h
      then randomHeight_loop (h + 1) rnd else h)"
  by pat_completeness auto
termination
proof (relation "measure (\<lambda>(h, rnd). maxHeight - unat h)")
  show "wf (measure (\<lambda>(h, rnd). maxHeight - unat h))"
    by simp
next
  fix h rnd :: u32
  assume "unat h < maxHeight \<and> rnd \<le> probabilities ! unat h"
  then have h: "unat h < 20"
    by (simp add: maxHeight_def)
  then have "unat (h + 1) = unat h + 1"
    by (simp add: unat_word_ariths)
  with h show "((h + 1, rnd), (h, rnd)) \<in> measure (\<lambda>(h, rnd). maxHeight - unat h)"
    by (simp add: maxHeight_def)
qed

declare randomHeight_loop.simps [simp del]

definition randomHeight :: "u32 stream \<Rightarrow> u32 \<times> u32 stream" where
  "randomHeight g = (let rnd = shd g in (randomHeight_loop 1 rnd, stl g))"

subsection \<open>The arena and the node accessors\<close>

text \<open>
  \<^verbatim>\<open>s.node(offset)\<close> takes the address of \<^verbatim>\<open>s.nodes[offset]\<close>, which checks the
  offset against the slice length; the result is the index of the node's first
  byte in the backing array.
\<close>

definition node :: "Skiplist \<Rightarrow> u32 \<Rightarrow> panic + nat" where
  "node s offset =
     (if unat offset < len_nodes s then Inr (unat offset) else Inl IndexOutOfRange)"

text \<open>The address of \<^verbatim>\<open>links[h]\<close> in the node at \<open>p\<close>: indexing the array checks \<open>h\<close>.\<close>

definition links_at :: "nat \<Rightarrow> u32 \<Rightarrow> panic + nat" where
  "links_at p h =
     (if unat h < maxHeight then Inr (p + off_links + unat h * linksSize)
      else Inl IndexOutOfRange)"

definition getKey :: "Skiplist \<Rightarrow> u32 \<Rightarrow> panic + u32" where
  "getKey s nd = (case node s nd of Inl e \<Rightarrow> Inl e | Inr p \<Rightarrow> read32 s (p + off_key))"

definition getKeyPrefix :: "Skiplist \<Rightarrow> u32 \<Rightarrow> panic + KeyPrefix" where
  "getKeyPrefix s nd =
     (case node s nd of Inl e \<Rightarrow> Inl e | Inr p \<Rightarrow> read64 s (p + off_prefix))"

definition getNext :: "Skiplist \<Rightarrow> u32 \<Rightarrow> u32 \<Rightarrow> panic + u32" where
  "getNext s nd h =
     (case node s nd of Inl e \<Rightarrow> Inl e
      | Inr p \<Rightarrow> (case links_at p h of Inl e \<Rightarrow> Inl e
                  | Inr a \<Rightarrow> read32 s (a + off_next)))"

definition getPrev :: "Skiplist \<Rightarrow> u32 \<Rightarrow> u32 \<Rightarrow> panic + u32" where
  "getPrev s nd h =
     (case node s nd of Inl e \<Rightarrow> Inl e
      | Inr p \<Rightarrow> (case links_at p h of Inl e \<Rightarrow> Inl e
                  | Inr a \<Rightarrow> read32 s (a + off_prev)))"

definition setNext :: "Skiplist \<Rightarrow> u32 \<Rightarrow> u32 \<Rightarrow> u32 \<Rightarrow> panic + Skiplist" where
  "setNext s nd h nxt =
     (case node s nd of Inl e \<Rightarrow> Inl e
      | Inr p \<Rightarrow> (case links_at p h of Inl e \<Rightarrow> Inl e
                  | Inr a \<Rightarrow> write32 s (a + off_next) nxt))"

definition setPrev :: "Skiplist \<Rightarrow> u32 \<Rightarrow> u32 \<Rightarrow> u32 \<Rightarrow> panic + Skiplist" where
  "setPrev s nd h prv =
     (case node s nd of Inl e \<Rightarrow> Inl e
      | Inr p \<Rightarrow> (case links_at p h of Inl e \<Rightarrow> Inl e
                  | Inr a \<Rightarrow> write32 s (a + off_prev) prv))"

text \<open>
  \<^verbatim>\<open>alloc\<close>: \<^verbatim>\<open>offset\<close> and \<^verbatim>\<open>newSize\<close> are \<^verbatim>\<open>uint32\<close>, so the sum wraps;
  \<^verbatim>\<open>uint32(cap(s.nodes) * 2)\<close> keeps the low 32 bits of the doubled capacity.
  \<^verbatim>\<open>make([]byte, len, cap)\<close> gives zeroed bytes and panics when \<open>cap < len\<close>;
  \<^verbatim>\<open>copy\<close> moves the \<open>len\<close> bytes of the old slice; the slice expression
  \<^verbatim>\<open>s.nodes[:newSize]\<close> panics when \<open>newSize\<close> exceeds the capacity.
\<close>

definition alloc :: "Skiplist \<Rightarrow> u32 \<Rightarrow> panic + (u32 \<times> Skiplist)" where
  "alloc s sz =
     (let offset = (word_of_nat (len_nodes s) :: u32);
          newSize = offset + sz;
          grown =
            (if length (nodes s) < unat newSize then
               let allocSize0 = (word_of_nat (length (nodes s) * 2) :: u32);
                   allocSize = (if allocSize0 < newSize then newSize else allocSize0)
               in if unat allocSize < len_nodes s then Inl MakeSliceOutOfRange
                  else Inr (s\<lparr>nodes := take (len_nodes s) (nodes s)
                                   @ replicate (unat allocSize - len_nodes s) 0\<rparr>)
             else Inr s)
      in case grown of Inl e \<Rightarrow> Inl e
         | Inr s1 \<Rightarrow>
             if length (nodes s1) < unat newSize then Inl IndexOutOfRange
             else Inr (offset, s1\<lparr>len_nodes := unat newSize\<rparr>))"

definition newNode :: "Skiplist \<Rightarrow> u32 \<Rightarrow> u32 \<Rightarrow> KeyPrefix \<Rightarrow> panic + (u32 \<times> Skiplist)" where
  "newNode s h key prefix =
     (if h < 1 \<or> h > word_of_nat maxHeight then Inl HeightOutOfRange
      else
        let unusedSize = (maxHeight - unat h) * linksSize in
        case alloc s (word_of_nat (maxNodeSize - unusedSize)) of Inl e \<Rightarrow> Inl e
        | Inr (offset, s1) \<Rightarrow>
            (case node s1 offset of Inl e \<Rightarrow> Inl e
             | Inr nd \<Rightarrow>
                 (case write32 s1 (nd + off_key) key of Inl e \<Rightarrow> Inl e
                  | Inr s2 \<Rightarrow>
                      (case write64 s2 (nd + off_prefix) prefix of Inl e \<Rightarrow> Inl e
                       | Inr s3 \<Rightarrow> Inr (offset, s3)))))"

text \<open>
  \<^verbatim>\<open>make([]byte, len, cap)\<close> with sizes of type \<^verbatim>\<open>int\<close>: the Go runtime panics
  (\<^verbatim>\<open>makeslice: len out of range\<close>, \<^verbatim>\<open>makeslice: cap out of range\<close>) when the length
  is negative or exceeds the capacity, or when the capacity exceeds \<open>maxAlloc\<close>,
  the largest size its allocator accepts: \<open>2 ^ 48\<close> bytes on the 64-bit targets
  followed here. Otherwise the result is a zeroed backing array of \<open>cap\<close> bytes.
  A request within the limit that the machine cannot serve ends the process
  with a fatal error that no caller observes; the model has no such bound.
\<close>

definition maxAlloc :: int where
  "maxAlloc = 2 ^ 48"

definition make_bytes :: "int \<Rightarrow> int \<Rightarrow> panic + byte list" where
  "make_bytes len cap =
     (if len < 0 \<or> cap < len \<or> maxAlloc < cap then Inl MakeSliceOutOfRange
      else Inr (replicate (nat cap) 0))"

text \<open>
  \<^verbatim>\<open>NewSkiplist\<close>: the struct literal first (\<open>emptySkiplist\<close>, with the capacity
  hint raised to 256 and the arena made by \<^verbatim>\<open>make([]byte, 0, initBufSize)\<close>), then
  the two sentinels, then the loop that links them at every level.
  \<open>link_levels s i n\<close> runs the loop body for the levels \<open>i, i + 1, ..., i + n - 1\<close>.
\<close>

definition emptySkiplist :: "Storage \<Rightarrow> int \<Rightarrow> panic + Skiplist" where
  "emptySkiplist st initBufSize =
     (let initBufSize = (if initBufSize < 256 then 256 else initBufSize) in
      case make_bytes 0 initBufSize of Inl e \<Rightarrow> Inl e
      | Inr b \<Rightarrow>
          Inr \<lparr>storage = st, nodes = b, len_nodes = 0, head = 0, tail = 0, height = 1\<rparr>)"

text \<open>The struct literal once \<^verbatim>\<open>make\<close> has returned an array of \<open>c\<close> bytes.\<close>

definition literal :: "Storage \<Rightarrow> nat \<Rightarrow> Skiplist" where
  "literal st c =
     \<lparr>storage = st, nodes = replicate c 0, len_nodes = 0, head = 0, tail = 0, height = 1\<rparr>"

fun link_levels :: "Skiplist \<Rightarrow> u32 \<Rightarrow> nat \<Rightarrow> panic + Skiplist" where
  "link_levels s i 0 = Inr s"
| "link_levels s i (Suc n) =
     (case setNext s (head s) i (tail s) of Inl e \<Rightarrow> Inl e
      | Inr s1 \<Rightarrow>
          (case setPrev s1 (tail s1) i (head s1) of Inl e \<Rightarrow> Inl e
           | Inr s2 \<Rightarrow> link_levels s2 (i + 1) n))"

definition NewSkiplist :: "Storage \<Rightarrow> int \<Rightarrow> panic + Skiplist" where
  "NewSkiplist st initBufSize =
     (case emptySkiplist st initBufSize of Inl e \<Rightarrow> Inl e
      | Inr s \<Rightarrow>
          (case newNode s (word_of_nat maxHeight) 0 0 of Inl e \<Rightarrow> Inl e
           | Inr (h, s1) \<Rightarrow>
               (case newNode (s1\<lparr>head := h\<rparr>) (word_of_nat maxHeight) 0 0 of
                  Inl e \<Rightarrow> Inl e
                | Inr (t, s2) \<Rightarrow> link_levels (s2\<lparr>tail := t\<rparr>) 0 maxHeight)))"

subsection \<open>Splice search\<close>

text \<open>
  The receiver of \<^verbatim>\<open>findSpliceForLevel\<close> is a pointer, so the skiplist as the call
  leaves it is part of the result. The calls into \<^verbatim>\<open>Storage.Compare\<close> are the
  only effect outside the skiplist: the result lists, in order, the candidate
  nodes for which \<^verbatim>\<open>Compare\<close> was called. The \<^verbatim>\<open>for\<close> loop has no bound, so
  the function is partial: \<open>None\<close> is a walk that never ends.
\<close>

partial_function (option) findSpliceForLevel_loop ::
  "Skiplist \<Rightarrow> byte list \<Rightarrow> KeyPrefix \<Rightarrow> u32 \<Rightarrow> u32 \<Rightarrow> u32 list
     \<Rightarrow> (panic + (Skiplist \<times> u32 \<times> u32 \<times> bool \<times> u32 list)) option" where
  "findSpliceForLevel_loop s key prefix level prev calls =
     (case getNext s prev level of Inl e \<Rightarrow> Some (Inl e)
      | Inr next \<Rightarrow>
          if next = tail s then Some (Inr (s, prev, next, False, calls))
          else
            (case getKeyPrefix s next of Inl e \<Rightarrow> Some (Inl e)
             | Inr nextPrefix \<Rightarrow>
                 if prefix < nextPrefix then Some (Inr (s, prev, next, False, calls))
                 else if prefix = nextPrefix then
                   (case getKey s next of Inl e \<Rightarrow> Some (Inl e)
                    | Inr k \<Rightarrow>
                        if Compare (storage s) key k = 0
                        then Some (Inr (s, prev, next, True, calls @ [next]))
                        else if Compare (storage s) key k < 0
                        then Some (Inr (s, prev, next, False, calls @ [next]))
                        else findSpliceForLevel_loop s key prefix level next (calls @ [next]))
                 else findSpliceForLevel_loop s key prefix level next calls))"

declare findSpliceForLevel_loop.simps [code]

definition findSpliceForLevel ::
  "Skiplist \<Rightarrow> byte list \<Rightarrow> KeyPrefix \<Rightarrow> u32 \<Rightarrow> u32
     \<Rightarrow> (panic + (Skiplist \<times> u32 \<times> u32 \<times> bool \<times> u32 list)) option" where
  "findSpliceForLevel s key prefix level start =
     findSpliceForLevel_loop s key prefix level start []"

subsection \<open>Addresses of the fields and the layout of the arena\<close>

text \<open>
  The addresses that the accessors compute, and what it means for a set \<open>N\<close> of
  node offsets with allocated heights \<open>ah\<close> to lie in the arena: every node
  ends within the slice, whose length fits 32 bits, and no two nodes overlap.
\<close>

definition key_addr :: "u32 \<Rightarrow> nat" where
  "key_addr n = unat n + off_key"

definition prefix_addr :: "u32 \<Rightarrow> nat" where
  "prefix_addr n = unat n + off_prefix"

definition next_addr :: "u32 \<Rightarrow> u32 \<Rightarrow> nat" where
  "next_addr n l = unat n + off_links + unat l * linksSize + off_next"

definition prev_addr :: "u32 \<Rightarrow> u32 \<Rightarrow> nat" where
  "prev_addr n l = unat n + off_links + unat l * linksSize + off_prev"

definition node_end :: "u32 \<Rightarrow> nat \<Rightarrow> nat" where
  "node_end n h = unat n + off_links + h * linksSize"

definition put32 :: "Skiplist \<Rightarrow> nat \<Rightarrow> u32 \<Rightarrow> Skiplist" where
  "put32 s a v = s\<lparr>nodes := store_le (nodes s) a 4 v\<rparr>"

definition put64 :: "Skiplist \<Rightarrow> nat \<Rightarrow> KeyPrefix \<Rightarrow> Skiplist" where
  "put64 s a v = s\<lparr>nodes := store_le (nodes s) a 8 v\<rparr>"

definition arena_ok :: "Skiplist \<Rightarrow> u32 set \<Rightarrow> (u32 \<Rightarrow> nat) \<Rightarrow> bool" where
  "arena_ok s N ah \<longleftrightarrow>
     len_nodes s \<le> length (nodes s) \<and> len_nodes s < 2 ^ 32
     \<and> (\<forall>n\<in>N. 1 \<le> ah n \<and> ah n \<le> maxHeight \<and> node_end n (ah n) \<le> len_nodes s)
     \<and> (\<forall>n\<in>N. \<forall>m\<in>N. n \<noteq> m \<longrightarrow>
            node_end n (ah n) \<le> unat m \<or> node_end m (ah m) \<le> unat n)"

text \<open>The capacity that \<^verbatim>\<open>alloc\<close> chooses when a slice of capacity \<open>c\<close> must hold \<open>n\<close> bytes.\<close>

definition grow_cap :: "nat \<Rightarrow> nat \<Rightarrow> nat" where
  "grow_cap c n = (if (c * 2) mod 2 ^ 32 < n then n else (c * 2) mod 2 ^ 32)"

definition alloc_nodes :: "Skiplist \<Rightarrow> nat \<Rightarrow> byte list" where
  "alloc_nodes s n =
     (if length (nodes s) < n
      then take (len_nodes s) (nodes s)
           @ replicate (grow_cap (length (nodes s)) n - len_nodes s) 0
      else nodes s)"

text \<open>The skiplist after \<^verbatim>\<open>alloc\<close> has extended the slice to \<open>n\<close> bytes.\<close>

definition extend :: "Skiplist \<Rightarrow> nat \<Rightarrow> Skiplist" where
  "extend s n = s\<lparr>nodes := alloc_nodes s n, len_nodes := n\<rparr>"

subsection \<open>A storage of byte-string keys\<close>

text \<open>
  \<^verbatim>\<open>Storage\<close> is an interface. \<open>table_storage\<close> is the implementation used to run the
  model on concrete inputs: the key at an offset is read from a table, keys are
  compared as \<^verbatim>\<open>bytes.Compare\<close> does, and the prefix of a key is its first byte
  (zero for the empty key).
\<close>

fun bytes_compare :: "byte list \<Rightarrow> byte list \<Rightarrow> int" where
  "bytes_compare [] [] = 0"
| "bytes_compare [] (y # ys) = - 1"
| "bytes_compare (x # xs) [] = 1"
| "bytes_compare (x # xs) (y # ys) =
     (if x < y then - 1 else if y < x then 1 else bytes_compare xs ys)"

definition first_byte_prefix :: "byte list \<Rightarrow> KeyPrefix" where
  "first_byte_prefix k = (case k of [] \<Rightarrow> 0 | b # bs \<Rightarrow> ucast b)"

definition table_storage :: "(u32 \<Rightarrow> byte list) \<Rightarrow> Storage" where
  "table_storage t =
     \<lparr>Get = t, Prefix = first_byte_prefix, Compare = (\<lambda>a k. bytes_compare a (t k))\<rparr>"

text \<open>A skiplist with an empty arena of capacity 256 and the sentinels not yet allocated.\<close>

definition blank_arena :: Skiplist where
  "blank_arena =
     \<lparr>storage = table_storage (\<lambda>k. []), nodes = replicate 256 0,
      len_nodes = 0, head = 0, tail = 0, height = 1\<rparr>"

text \<open>
  A skiplist whose arena holds \<open>2 ^ 32 - 48\<close> bytes in a backing array of \<open>2 ^ 32\<close>:
  the state after \<^verbatim>\<open>NewSkiplist\<close> and 24403221 calls \<^verbatim>\<open>newNode(20, ...)\<close>.
\<close>

definition full_arena :: Skiplist where
  "full_arena =
     \<lparr>storage = table_storage (\<lambda>k. []), nodes = replicate 4294967296 0,
      len_nodes = 4294967248, head = 0, tail = 176, height = 1\<rparr>"

subsection \<open>The loop of \<^verbatim>\<open>debug\<close>\<close>

text \<open>
  \<^verbatim>\<open>debug\<close> walks every level from the head until it meets the tail and counts the
  nodes it passes. \<open>level_nodes\<close> is that loop, from any node, returning the nodes
  passed instead of their number; the walk may go on for ever, so it is partial.
\<close>

partial_function (option) level_nodes ::
  "Skiplist \<Rightarrow> u32 \<Rightarrow> u32 \<Rightarrow> u32 list \<Rightarrow> (panic + u32 list) option" where
  "level_nodes s level nd acc =
     (if nd = tail s then Some (Inr acc)
      else (case getNext s nd level of Inl e \<Rightarrow> Some (Inl e)
            | Inr n \<Rightarrow> level_nodes s level n (acc @ [nd])))"

declare level_nodes.simps [code]

definition level_count :: "Skiplist \<Rightarrow> u32 \<Rightarrow> (panic + nat) option" where
  "level_count s level = map_option (map_sum id length) (level_nodes s level (head s) [])"

subsection \<open>What the splice search decides at a node\<close>

text \<open>
  \<open>passes\<close>: the walk moves past node \<open>n\<close> (smaller prefix, or equal prefix and
  \<^verbatim>\<open>Compare\<close> positive). \<open>hits\<close>: the walk stops at \<open>n\<close> with \<^verbatim>\<open>found = true\<close>.
  \<open>probe_ok\<close>: the reads that the loop body makes at \<open>n\<close> do not panic.
  \<open>next_chain s l a ns\<close>: \<open>ns\<close> are the nodes that follow \<open>a\<close> at level \<open>l\<close>.
\<close>

definition passes :: "Skiplist \<Rightarrow> byte list \<Rightarrow> KeyPrefix \<Rightarrow> u32 \<Rightarrow> bool" where
  "passes s key prefix n \<longleftrightarrow>
     n \<noteq> tail s
     \<and> (case getKeyPrefix s n of Inl e \<Rightarrow> False
        | Inr q \<Rightarrow> q < prefix
            \<or> (q = prefix
               \<and> (case getKey s n of Inl e \<Rightarrow> False
                  | Inr k \<Rightarrow> 0 < Compare (storage s) key k)))"

definition hits :: "Skiplist \<Rightarrow> byte list \<Rightarrow> KeyPrefix \<Rightarrow> u32 \<Rightarrow> bool" where
  "hits s key prefix n \<longleftrightarrow>
     n \<noteq> tail s \<and> getKeyPrefix s n = Inr prefix
     \<and> (case getKey s n of Inl e \<Rightarrow> False | Inr k \<Rightarrow> Compare (storage s) key k = 0)"

definition probe_ok :: "Skiplist \<Rightarrow> KeyPrefix \<Rightarrow> u32 \<Rightarrow> bool" where
  "probe_ok s prefix n \<longleftrightarrow>
     n = tail s
     \<or> (\<exists>q. getKeyPrefix s n = Inr q \<and> (q = prefix \<longrightarrow> (\<exists>k. getKey s n = Inr k)))"

fun next_chain :: "Skiplist \<Rightarrow> u32 \<Rightarrow> u32 \<Rightarrow> u32 list \<Rightarrow> bool" where
  "next_chain s l a [] = True"
| "next_chain s l a (n # ns) = (getNext s a l = Inr n \<and> next_chain s l n ns)"

text \<open>
  \<open>loop_post\<close>: what a result of the search loop says when the loop was entered
  with the log \<open>calls\<close>. \<open>compared\<close>: the nodes of a list at which \<^verbatim>\<open>Compare\<close> is
  called.
\<close>

definition loop_post ::
  "Skiplist \<Rightarrow> byte list \<Rightarrow> KeyPrefix \<Rightarrow> u32 \<Rightarrow> u32 list
     \<Rightarrow> panic + (Skiplist \<times> u32 \<times> u32 \<times> bool \<times> u32 list) \<Rightarrow> bool" where
  "loop_post s key prefix level calls y \<longleftrightarrow>
     (\<forall>s' p n f c. y = Inr (s', p, n, f, c) \<longrightarrow>
        s' = s \<and> getNext s p level = Inr n
        \<and> (f \<longleftrightarrow> hits s key prefix n) \<and> \<not> passes s key prefix n
        \<and> (\<exists>ys. c = calls @ ys
              \<and> (\<forall>x\<in>set ys. x \<noteq> tail s \<and> getKeyPrefix s x = Inr prefix)))"

definition compared :: "Skiplist \<Rightarrow> KeyPrefix \<Rightarrow> u32 list \<Rightarrow> u32 list" where
  "compared s prefix ns = filter (\<lambda>n. n \<noteq> tail s \<and> getKeyPrefix s n = Inr prefix) ns"

subsection \<open>Insertion and traversal\<close>

text \<open>
  Modelled from the spec: insertion (\<^verbatim>\<open>Add\<close>) and the level-0 traversal belong to
  the iterator, whose source file is not part of the sources at hand; \<^verbatim>\<open>skl.go\<close>
  only names the type \<^verbatim>\<open>Iterator\<close>. The definitions follow section 4.6 of the
  specification step by step, on top of the operations of \<^verbatim>\<open>skl.go\<close>:
  the prefix of the key is computed by the storage; a height is drawn; the
  active height is raised to it if it is larger; from the top active level down
  to level 0 the splice search runs, each level starting from the predecessor
  found one level above; a match at any level ends the insertion with
  \<^verbatim>\<open>ErrRecordExists\<close> before any link is written; otherwise the node is
  allocated once and, for each level below its height, its own next and prev
  are set, then the predecessor's next and the successor's prev.
\<close>

type_synonym splice = "u32 \<times> u32"

text \<open>
  \<open>find_splices s key prefix l prev\<close> searches the levels \<open>l - 1, ..., 0\<close>.
  The result is \<open>None\<close> after a match, and otherwise the splices found, the one of
  level \<open>i\<close> at index \<open>i\<close>.
\<close>

fun find_splices ::
  "Skiplist \<Rightarrow> byte list \<Rightarrow> KeyPrefix \<Rightarrow> nat \<Rightarrow> u32
     \<Rightarrow> (panic + (Skiplist \<times> splice list option)) option" where
  "find_splices s key prefix 0 prev = Some (Inr (s, Some []))"
| "find_splices s key prefix (Suc l) prev =
     (case findSpliceForLevel s key prefix (word_of_nat l) prev of
        None \<Rightarrow> None
      | Some (Inl e) \<Rightarrow> Some (Inl e)
      | Some (Inr (s1, p, n, found, calls)) \<Rightarrow>
          if found then Some (Inr (s1, None))
          else
            (case find_splices s1 key prefix l p of
               None \<Rightarrow> None
             | Some (Inl e) \<Rightarrow> Some (Inl e)
             | Some (Inr (s2, None)) \<Rightarrow> Some (Inr (s2, None))
             | Some (Inr (s2, Some spl)) \<Rightarrow> Some (Inr (s2, Some (spl @ [(p, n)])))))"

text \<open>\<open>splice_levels s nd i spl\<close> links node \<open>nd\<close> at the levels \<open>i, i + 1, ...\<close>, one per splice.\<close>

fun splice_levels :: "Skiplist \<Rightarrow> u32 \<Rightarrow> nat \<Rightarrow> splice list \<Rightarrow> panic + Skiplist" where
  "splice_levels s nd i [] = Inr s"
| "splice_levels s nd i ((p, n) # spl) =
     (case setNext s nd (word_of_nat i) n of Inl e \<Rightarrow> Inl e
      | Inr s1 \<Rightarrow>
     (case setPrev s1 nd (word_of_nat i) p of Inl e \<Rightarrow> Inl e
      | Inr s2 \<Rightarrow>
     (case setNext s2 p (word_of_nat i) nd of Inl e \<Rightarrow> Inl e
      | Inr s3 \<Rightarrow>
     (case setPrev s3 n (word_of_nat i) nd of Inl e \<Rightarrow> Inl e
      | Inr s4 \<Rightarrow> splice_levels s4 nd (Suc i) spl))))"

definition add ::
  "Skiplist \<Rightarrow> u32 stream \<Rightarrow> byte list \<Rightarrow> u32
     \<Rightarrow> (panic + (skl_error option \<times> Skiplist \<times> u32 stream)) option" where
  "add s g key keyOffset =
     (let prefix = Prefix (storage s) key;
          h = fst (randomHeight g);
          g1 = snd (randomHeight g);
          s1 = (if height s < h then s\<lparr>height := h\<rparr> else s)
      in case find_splices s1 key prefix (unat (height s1)) (head s1) of
           None \<Rightarrow> None
         | Some (Inl e) \<Rightarrow> Some (Inl e)
         | Some (Inr (s2, None)) \<Rightarrow> Some (Inr (Some ErrRecordExists, s2, g1))
         | Some (Inr (s2, Some spl)) \<Rightarrow>
             (case newNode s2 h keyOffset prefix of Inl e \<Rightarrow> Some (Inl e)
              | Inr (nd, s3) \<Rightarrow>
                  (case splice_levels s3 nd 0 (take (unat h) spl) of Inl e \<Rightarrow> Some (Inl e)
                   | Inr s4 \<Rightarrow> Some (Inr (None, s4, g1)))))"



definition key_of :: "Skiplist \<Rightarrow> u32 \<Rightarrow> u32" where
  "key_of s n = (case getKey s n of Inl e \<Rightarrow> 0 | Inr k \<Rightarrow> k)"

subsection \<open>The contract of the storage and the invariant of the skiplist\<close>


text \<open>
  \<open>linked s l xs\<close>: consecutive nodes of \<open>xs\<close> point at each other at level \<open>l\<close>.
  \<open>level_list lh i ns\<close>: the nodes of \<open>ns\<close> linked at level \<open>i\<close>, when \<open>lh n\<close> is the
  number of levels at which \<open>n\<close> is linked.
\<close>

fun linked :: "Skiplist \<Rightarrow> u32 \<Rightarrow> u32 list \<Rightarrow> bool" where
  "linked s l [] = True"
| "linked s l [a] = True"
| "linked s l (a # b # xs) =
     (getNext s a l = Inr b \<and> getPrev s b l = Inr a \<and> linked s l (b # xs))"

definition level_list :: "(u32 \<Rightarrow> nat) \<Rightarrow> nat \<Rightarrow> u32 list \<Rightarrow> u32 list" where
  "level_list lh i ns = filter (\<lambda>n. i < lh n) ns"

definition key_less :: "(byte list \<Rightarrow> byte list \<Rightarrow> bool) \<Rightarrow> Skiplist \<Rightarrow> u32 \<Rightarrow> u32 \<Rightarrow> bool" where
  "key_less le s a b \<longleftrightarrow>
     \<not> le (Get (storage s) (key_of s b)) (Get (storage s) (key_of s a))"




text \<open>
  The skiplist after \<^verbatim>\<open>newNode\<close> has allocated a node of height \<open>h\<close> at the end of
  the arena, and after the four link updates that splice node \<open>nd\<close> between \<open>p\<close>
  and \<open>n\<close> at level \<open>l\<close>.
\<close>

definition fresh_node :: "Skiplist \<Rightarrow> nat \<Rightarrow> u32 \<Rightarrow> KeyPrefix \<Rightarrow> Skiplist" where
  "fresh_node s h key prefix =
     put64 (put32 (extend s (len_nodes s + 16 + 8 * h)) (len_nodes s) key) (len_nodes s + 8) prefix"

definition spliced :: "Skiplist \<Rightarrow> u32 \<Rightarrow> u32 \<Rightarrow> u32 \<Rightarrow> u32 \<Rightarrow> Skiplist" where
  "spliced s nd l p n =
     put32 (put32 (put32 (put32 s (next_addr nd l) n) (prev_addr nd l) p) (next_addr p l) nd)
       (prev_addr n l) nd"


subsection \<open>A small skiplist\<close>

text \<open>
  Three keys, \<^verbatim>\<open>"b"\<close>, \<^verbatim>\<open>"a"\<close> and \<^verbatim>\<open>"c"\<close>, stored at the offsets 1, 2 and 3.
  \<open>one_key_list\<close> holds the key at offset 1 in a node of height 1: it is what
  \<^verbatim>\<open>NewSkiplist\<close>, then \<^verbatim>\<open>newNode(1, 1, prefix)\<close>, then the four link updates at
  level 0 between the head and the tail leave.
\<close>

definition sample_keys :: "u32 \<Rightarrow> byte list" where
  "sample_keys k = (if k = 1 then [98] else if k = 2 then [97] else if k = 3 then [99] else [])"

definition sample_storage :: Storage where
  "sample_storage = table_storage sample_keys"

definition one_key_list :: Skiplist where
  "one_key_list =
     spliced (fresh_node (projr (NewSkiplist sample_storage 0)) 1 1 98) 352 0 0 176"

section \<open>Loads and stores\<close>

lemma length_store_le [simp]: "length (store_le m a n v) = length m"
  by (induction n arbitrary: m a v) auto

lemma nth_store_le_outside: "i < a \<or> a + n \<le> i \<Longrightarrow> store_le m a n v ! i = m ! i"
  by (induction n arbitrary: m a v) auto

lemma load_le_cong:
  "(\<And>i. i < k \<Longrightarrow> m ! (b + i) = m' ! (b + i))
     \<Longrightarrow> (load_le m b k :: 'a::len word) = load_le m' b k"
proof (induction k arbitrary: b)
  case 0
  then show ?case by simp
next
  case (Suc k)
  have "m ! b = m' ! b"
    using Suc.prems [of 0] by simp
  moreover have "(load_le m (Suc b) k :: 'a word) = load_le m' (Suc b) k"
    using Suc.prems [of "Suc _"] by (intro Suc.IH) simp
  ultimately show ?case by simp
qed

lemma load_store_disjoint:
  "b + k \<le> a \<or> a + n \<le> b
     \<Longrightarrow> (load_le (store_le m a n v) b k :: 'a::len word) = load_le m b k"
  by (rule load_le_cong) (auto simp: nth_store_le_outside)

lemma load_store_same:
  "a + n \<le> length m
     \<Longrightarrow> (load_le (store_le m a n v) a n :: 'a::len word) = take_bit (8 * n) v"
proof (induction n arbitrary: m a v)
  case 0
  then show ?case by simp
next
  case (Suc n)
  let ?m = "m[a := ucast v]"
  have fst: "store_le ?m (Suc a) n (drop_bit 8 v) ! a = ucast v"
    using Suc.prems by (simp add: nth_store_le_outside)
  have rest: "(load_le (store_le ?m (Suc a) n (drop_bit 8 v)) (Suc a) n :: 'a word)
      = take_bit (8 * n) (drop_bit 8 v)"
    using Suc.prems by (intro Suc.IH) simp
  have "ucast (ucast v :: byte) OR push_bit 8 (take_bit (8 * n) (drop_bit 8 v))
      = take_bit (8 * Suc n) v"
    by (rule bit_word_eqI) (auto simp: bit_simps)
  with fst rest show ?case
    by simp
qed

lemma load_store_same32:
  "a + 4 \<le> length m \<Longrightarrow> (load_le (store_le m a 4 v) a 4 :: u32) = v"
  using load_store_same [of a 4 m v] by (simp add: take_bit_word_eq_self)

lemma load_store_same64:
  "a + 8 \<le> length m \<Longrightarrow> (load_le (store_le m a 8 v) a 8 :: KeyPrefix) = v"
  using load_store_same [of a 8 m v] by (simp add: take_bit_word_eq_self)

lemma load_le_append_take:
  "b + k \<le> n \<Longrightarrow> n \<le> length m
     \<Longrightarrow> (load_le (take n m @ zs) b k :: 'a::len word) = load_le m b k"
  by (rule load_le_cong) (simp add: nth_append)

section \<open>The height loop\<close>

lemma randomHeight_loop_step:
  "unat h < 20 \<Longrightarrow> rnd \<le> probabilities ! unat h
     \<Longrightarrow> randomHeight_loop h rnd = randomHeight_loop (h + 1) rnd"
  by (subst randomHeight_loop.simps) (simp add: maxHeight_def)

lemma randomHeight_loop_stop:
  "\<not> (unat h < 20 \<and> rnd \<le> probabilities ! unat h) \<Longrightarrow> randomHeight_loop h rnd = h"
  by (subst randomHeight_loop.simps) (auto simp: maxHeight_def)

lemma unat_suc_level: "unat (h :: u32) < 20 \<Longrightarrow> unat (h + 1) = Suc (unat h)"
  by (simp add: unat_word_ariths)

lemma randomHeight_loop_bounds:
  "unat h \<le> 20 \<Longrightarrow> unat h \<le> unat (randomHeight_loop h rnd) \<and> unat (randomHeight_loop h rnd) \<le> 20"
proof (induction h rnd rule: randomHeight_loop.induct)
  case (1 h rnd)
  show ?case
  proof (cases "unat h < 20 \<and> rnd \<le> probabilities ! unat h")
    case True
    then have "unat (h + 1) \<le> unat (randomHeight_loop (h + 1) rnd) \<and> unat (randomHeight_loop (h + 1) rnd) \<le> 20"
      by (intro "1.IH") (simp_all add: maxHeight_def unat_suc_level)
    with True show ?thesis
      by (simp add: randomHeight_loop_step unat_suc_level)
  next
    case False
    with "1.prems" show ?thesis
      by (simp add: randomHeight_loop_stop)
  qed
qed

section \<open>The height table\<close>

lemma probabilities_eq:
  "probabilities = [4294967295, 1580030168, 581260615, 213833830, 78665070, 28939261,
     10646159, 3916503, 1440801, 530041, 194991, 71733, 26389, 9708, 3571, 1313, 483, 177, 65, 24]"
  by code_simp

lemma exp1_bounds: "2718281828459045 / 10 ^ 15 \<le> exp (1::real)" "exp (1::real) \<le> 2718281828459046 / 10 ^ 15"
proof -
  obtain t :: real where t: "\<bar>t\<bar> \<le> \<bar>1\<bar>" and e: "exp (1::real) = (\<Sum>m<20. 1 ^ m / fact m) + exp t / fact 20 * 1 ^ 20"
    using Maclaurin_exp_le [of 1 20] by blast
  have S: "(\<Sum>m<20::nat. (1::real) ^ m / fact m) = 82666416490601 / 30411275102208"
    by (simp add: lessThan_Suc eval_nat_numeral fact_numeral)
  have "0 < exp t" by simp
  moreover have "exp t \<le> 3"
  proof -
    have "exp t \<le> exp 1" using t by simp
    also have "\<dots> \<le> 3" by (rule exp_le)
    finally show ?thesis .
  qed
  ultimately show "2718281828459045 / 10 ^ 15 \<le> exp (1::real)" "exp (1::real) \<le> 2718281828459046 / 10 ^ 15"
    unfolding e S by (simp_all add: fact_numeral field_simps)
qed

lemma floor_inv_exp:
  fixes M N :: int
  assumes "0 \<le> N" "N * 2718281828459046 ^ i \<le> M * (10 ^ 15) ^ i"
    and "M * (10 ^ 15) ^ i < (N + 1) * 2718281828459045 ^ i"
  shows "\<lfloor>of_int M * (1 / exp (1::real)) ^ i\<rfloor> = N"
proof -
  define L U D :: real where "L = 2718281828459045 / 10 ^ 15"
    and "U = 2718281828459046 / 10 ^ 15" and "D = (10 ^ 15) ^ i"
  have D: "0 < D" by (simp add: D_def)
  have Ui: "U ^ i = 2718281828459046 ^ i / D"
    unfolding U_def D_def by (rule power_divide)
  have Li: "L ^ i = 2718281828459045 ^ i / D"
    unfolding L_def D_def by (rule power_divide)
  have pos: "0 < exp (1::real) ^ i" by simp
  have lo: "L ^ i \<le> exp 1 ^ i"
    by (rule power_mono) (use exp1_bounds in \<open>simp_all add: L_def\<close>)
  have hi: "exp 1 ^ i \<le> U ^ i"
    by (rule power_mono) (use exp1_bounds in \<open>simp_all add: U_def\<close>)
  have x: "real_of_int M * (1 / exp (1::real)) ^ i = real_of_int M / exp 1 ^ i"
    by (simp add: power_divide)
  have "(real_of_int (N * 2718281828459046 ^ i) :: real) \<le> real_of_int (M * (10 ^ 15) ^ i)"
    using assms(2) by (rule of_int_le_iff [THEN iffD2])
  then have "real_of_int N * 2718281828459046 ^ i \<le> real_of_int M * D"
    by (simp add: D_def)
  then have "real_of_int N * (2718281828459046 ^ i / D) \<le> real_of_int M"
    using D by (simp add: pos_divide_le_eq)
  then have U: "real_of_int N * U ^ i \<le> real_of_int M"
    by (simp only: Ui)
  have "(real_of_int (M * (10 ^ 15) ^ i) :: real) < real_of_int ((N + 1) * 2718281828459045 ^ i)"
    using assms(3) by (rule of_int_less_iff [THEN iffD2])
  then have "real_of_int M * D < (real_of_int N + 1) * 2718281828459045 ^ i"
    by (simp add: D_def)
  then have "real_of_int M < (real_of_int N + 1) * (2718281828459045 ^ i / D)"
    using D by (simp add: pos_less_divide_eq)
  then have L: "real_of_int M < (real_of_int N + 1) * L ^ i"
    by (simp only: Li)
  have "real_of_int N * exp 1 ^ i \<le> real_of_int N * U ^ i"
    using hi assms(1) by (intro mult_left_mono) simp_all
  with U have a: "real_of_int N * exp 1 ^ i \<le> real_of_int M" by linarith
  have "(real_of_int N + 1) * L ^ i \<le> (real_of_int N + 1) * exp 1 ^ i"
    using lo assms(1) by (intro mult_left_mono) simp_all
  with L have b: "real_of_int M < (real_of_int N + 1) * exp 1 ^ i" by linarith
  from a pos have a': "real_of_int N \<le> real_of_int M / exp 1 ^ i"
    by (simp add: pos_le_divide_eq)
  from b pos have b': "real_of_int M / exp 1 ^ i < real_of_int N + 1"
    by (simp add: pos_divide_less_eq)
  from a' b' show ?thesis
    unfolding x by (intro floor_unique) simp_all
qed

lemma extend_bound: "\<forall>i<n. P i \<Longrightarrow> P n \<Longrightarrow> m = Suc n \<Longrightarrow> \<forall>i<m. P i"
  by (simp add: less_Suc_eq)

lemma table_entry:
  assumes "\<lfloor>of_int MaxUint32 * (1 / exp (1::real)) ^ k\<rfloor> = N" and "uint (probabilities ! k) = N"
  shows "uint (probabilities ! k) = \<lfloor>of_int MaxUint32 * (1 / exp (1::real)) ^ k\<rfloor>"
  using assms by simp

lemma table_floor_0: "\<lfloor>of_int MaxUint32 * (1 / exp (1::real)) ^ (0::nat)\<rfloor> = 4294967295"
  by (rule floor_inv_exp) (simp_all add: MaxUint32_def)

lemma table_floor_1: "\<lfloor>of_int MaxUint32 * (1 / exp (1::real)) ^ (1::nat)\<rfloor> = 1580030168"
  by (rule floor_inv_exp) (simp_all add: MaxUint32_def)

lemma table_floor_2: "\<lfloor>of_int MaxUint32 * (1 / exp (1::real)) ^ (2::nat)\<rfloor> = 581260615"
  by (rule floor_inv_exp) (simp_all add: MaxUint32_def)

lemma table_floor_3: "\<lfloor>of_int MaxUint32 * (1 / exp (1::real)) ^ (3::nat)\<rfloor> = 213833830"
  by (rule floor_inv_exp) (simp_all add: MaxUint32_def)

lemma table_floor_4: "\<lfloor>of_int MaxUint32 * (1 / exp (1::real)) ^ (4::nat)\<rfloor> = 78665070"
  by (rule floor_inv_exp) (simp_all add: MaxUint32_def)

lemma table_floor_5: "\<lfloor>of_int MaxUint32 * (1 / exp (1::real)) ^ (5::nat)\<rfloor> = 28939261"
  by (rule floor_inv_exp) (simp_all add: MaxUint32_def)

lemma table_floor_6: "\<lfloor>of_int MaxUint32 * (1 / exp (1::real)) ^ (6::nat)\<rfloor> = 10646159"
  by (rule floor_inv_exp) (simp_all add: MaxUint32_def)

lemma table_floor_7: "\<lfloor>of_int MaxUint32 * (1 / exp (1::real)) ^ (7::nat)\<rfloor> = 3916503"
  by (rule floor_inv_exp) (simp_all add: MaxUint32_def)

lemma table_floor_8: "\<lfloor>of_int MaxUint32 * (1 / exp (1::real)) ^ (8::nat)\<rfloor> = 1440801"
  by (rule floor_inv_exp) (simp_all add: MaxUint32_def)

lemma table_floor_9: "\<lfloor>of_int MaxUint32 * (1 / exp (1::real)) ^ (9::nat)\<rfloor> = 530041"
  by (rule floor_inv_exp) (simp_all add: MaxUint32_def)

lemma table_floor_10: "\<lfloor>of_int MaxUint32 * (1 / exp (1::real)) ^ (10::nat)\<rfloor> = 194991"
  by (rule floor_inv_exp) (simp_all add: MaxUint32_def)

lemma table_floor_11: "\<lfloor>of_int MaxUint32 * (1 / exp (1::real)) ^ (11::nat)\<rfloor> = 71733"
  by (rule floor_inv_exp) (simp_all add: MaxUint32_def)

lemma table_floor_12: "\<lfloor>of_int MaxUint32 * (1 / exp (1::real)) ^ (12::nat)\<rfloor> = 26389"
  by (rule floor_inv_exp) (simp_all add: MaxUint32_def)

lemma table_floor_13: "\<lfloor>of_int MaxUint32 * (1 / exp (1::real)) ^ (13::nat)\<rfloor> = 9708"
  by (rule floor_inv_exp) (simp_all add: MaxUint32_def)

lemma table_floor_14: "\<lfloor>of_int MaxUint32 * (1 / exp (1::real)) ^ (14::nat)\<rfloor> = 3571"
  by (rule floor_inv_exp) (simp_all add: MaxUint32_def)

lemma table_floor_15: "\<lfloor>of_int MaxUint32 * (1 / exp (1::real)) ^ (15::nat)\<rfloor> = 1313"
  by (rule floor_inv_exp) (simp_all add: MaxUint32_def)

lemma table_floor_16: "\<lfloor>of_int MaxUint32 * (1 / exp (1::real)) ^ (16::nat)\<rfloor> = 483"
  by (rule floor_inv_exp) (simp_all add: MaxUint32_def)

lemma table_floor_17: "\<lfloor>of_int MaxUint32 * (1 / exp (1::real)) ^ (17::nat)\<rfloor> = 177"
  by (rule floor_inv_exp) (simp_all add: MaxUint32_def)

lemma table_floor_18: "\<lfloor>of_int MaxUint32 * (1 / exp (1::real)) ^ (18::nat)\<rfloor> = 65"
  by (rule floor_inv_exp) (simp_all add: MaxUint32_def)

lemma table_floor_19: "\<lfloor>of_int MaxUint32 * (1 / exp (1::real)) ^ (19::nat)\<rfloor> = 24"
  by (rule floor_inv_exp) (simp_all add: MaxUint32_def)

lemma probabilities_floor:
  "\<forall>i<20. uint (probabilities ! i) = \<lfloor>of_int MaxUint32 * (1 / exp (1::real)) ^ i\<rfloor>"
proof -
  define P where "P i \<longleftrightarrow> uint (probabilities ! i) = \<lfloor>of_int MaxUint32 * (1 / exp (1::real)) ^ i\<rfloor>" for i
  have upto_0: "\<forall>i<0. P i"
    by simp
  have "P 0"
    unfolding P_def by (rule table_entry [OF table_floor_0]) (simp add: probabilities_eq)
  with upto_0 have upto_1: "\<forall>i<1. P i"
    by (rule extend_bound) simp
  have "P 1"
    unfolding P_def by (rule table_entry [OF table_floor_1]) (simp add: probabilities_eq)
  with upto_1 have upto_2: "\<forall>i<2. P i"
    by (rule extend_bound) simp
  have "P 2"
    unfolding P_def by (rule table_entry [OF table_floor_2]) (simp add: probabilities_eq)
  with upto_2 have upto_3: "\<forall>i<3. P i"
    by (rule extend_bound) simp
  have "P 3"
    unfolding P_def by (rule table_entry [OF table_floor_3]) (simp add: probabilities_eq)
  with upto_3 have upto_4: "\<forall>i<4. P i"
    by (rule extend_bound) simp
  have "P 4"
    unfolding P_def by (rule table_entry [OF table_floor_4]) (simp add: probabilities_eq)
  with upto_4 have upto_5: "\<forall>i<5. P i"
    by (rule extend_bound) simp
  have "P 5"
    unfolding P_def by (rule table_entry [OF table_floor_5]) (simp add: probabilities_eq)
  with upto_5 have upto_6: "\<forall>i<6. P i"
    by (rule extend_bound) simp
  have "P 6"
    unfolding P_def by (rule table_entry [OF table_floor_6]) (simp add: probabilities_eq)
  with upto_6 have upto_7: "\<forall>i<7. P i"
    by (rule extend_bound) simp
  have "P 7"
    unfolding P_def by (rule table_entry [OF table_floor_7]) (simp add: probabilities_eq)
  with upto_7 have upto_8: "\<forall>i<8. P i"
    by (rule extend_bound) simp
  have "P 8"
    unfolding P_def by (rule table_entry [OF table_floor_8]) (simp add: probabilities_eq)
  with upto_8 have upto_9: "\<forall>i<9. P i"
    by (rule extend_bound) simp
  have "P 9"
    unfolding P_def by (rule table_entry [OF table_floor_9]) (simp add: probabilities_eq)
  with upto_9 have upto_10: "\<forall>i<10. P i"
    by (rule extend_bound) simp
  have "P 10"
    unfolding P_def by (rule table_entry [OF table_floor_10]) (simp add: probabilities_eq)
  with upto_10 have upto_11: "\<forall>i<11. P i"
    by (rule extend_bound) simp
  have "P 11"
    unfolding P_def by (rule table_entry [OF table_floor_11]) (simp add: probabilities_eq)
  with upto_11 have upto_12: "\<forall>i<12. P i"
    by (rule extend_bound) simp
  have "P 12"
    unfolding P_def by (rule table_entry [OF table_floor_12]) (simp add: probabilities_eq)
  with upto_12 have upto_13: "\<forall>i<13. P i"
    by (rule extend_bound) simp
  have "P 13"
    unfolding P_def by (rule table_entry [OF table_floor_13]) (simp add: probabilities_eq)
  with upto_13 have upto_14: "\<forall>i<14. P i"
    by (rule extend_bound) simp
  have "P 14"
    unfolding P_def by (rule table_entry [OF table_floor_14]) (simp add: probabilities_eq)
  with upto_14 have upto_15: "\<forall>i<15. P i"
    by (rule extend_bound) simp
  have "P 15"
    unfolding P_def by (rule table_entry [OF table_floor_15]) (simp add: probabilities_eq)
  with upto_15 have upto_16: "\<forall>i<16. P i"
    by (rule extend_bound) simp
  have "P 16"
    unfolding P_def by (rule table_entry [OF table_floor_16]) (simp add: probabilities_eq)
  with upto_16 have upto_17: "\<forall>i<17. P i"
    by (rule extend_bound) simp
  have "P 17"
    unfolding P_def by (rule table_entry [OF table_floor_17]) (simp add: probabilities_eq)
  with upto_17 have upto_18: "\<forall>i<18. P i"
    by (rule extend_bound) simp
  have "P 18"
    unfolding P_def by (rule table_entry [OF table_floor_18]) (simp add: probabilities_eq)
  with upto_18 have upto_19: "\<forall>i<19. P i"
    by (rule extend_bound) simp
  have "P 19"
    unfolding P_def by (rule table_entry [OF table_floor_19]) (simp add: probabilities_eq)
  with upto_19 have upto_20: "\<forall>i<20. P i"
    by (rule extend_bound) simp
  from upto_20 show ?thesis
    unfolding P_def .
qed

lemma randomHeight_loop_below:
  "unat h \<le> l \<Longrightarrow> l < unat (randomHeight_loop h rnd) \<Longrightarrow> rnd \<le> probabilities ! l"
proof (induction h rnd rule: randomHeight_loop.induct)
  case (1 h rnd)
  show ?case
  proof (cases "unat h < 20 \<and> rnd \<le> probabilities ! unat h")
    case True
    show ?thesis
    proof (cases "l = unat h")
      case True
      with \<open>unat h < 20 \<and> rnd \<le> probabilities ! unat h\<close> show ?thesis by simp
    next
      case False
      with "1.prems" True have "unat (h + 1) \<le> l" "l < unat (randomHeight_loop (h + 1) rnd)"
        by (simp_all add: randomHeight_loop_step unat_suc_level)
      with True show ?thesis
        by (intro "1.IH") (simp_all add: maxHeight_def)
    qed
  next
    case False
    with "1.prems" show ?thesis
      by (simp add: randomHeight_loop_stop)
  qed
qed

lemma randomHeight_loop_above:
  "unat (randomHeight_loop h rnd) < 20
     \<Longrightarrow> probabilities ! unat (randomHeight_loop h rnd) < rnd"
proof (induction h rnd rule: randomHeight_loop.induct)
  case (1 h rnd)
  show ?case
  proof (cases "unat h < 20 \<and> rnd \<le> probabilities ! unat h")
    case True
    with "1.prems" have "probabilities ! unat (randomHeight_loop (h + 1) rnd) < rnd"
      by (intro "1.IH") (simp_all add: maxHeight_def randomHeight_loop_step)
    with True show ?thesis
      by (simp add: randomHeight_loop_step)
  next
    case False
    with "1.prems" show ?thesis
      by (simp add: randomHeight_loop_stop not_le)
  qed
qed


text \<open>
  C4. The table written by \<^verbatim>\<open>init\<close> has 20 entries and entry \<open>i\<close> is the integer
  part of \<open>MaxUint32 * (1 / e) ^ i\<close>. \<^verbatim>\<open>randomHeight\<close> takes one draw from the
  stream and leaves the rest; the height it returns lies between 1 and 20, every
  level from 1 up to the height has a threshold that the draw does not exceed, and
  a height below 20 is a level whose threshold the draw exceeds: the height is the
  smallest such level, or 20 when there is none. The table is a constant: no
  operation takes it or returns it.
\<close>

theorem randomHeight_scans_table:
  "length probabilities = 20
   \<and> (\<forall>i<20. uint (probabilities ! i) = \<lfloor>of_int MaxUint32 * (1 / exp (1::real)) ^ i\<rfloor>)
   \<and> snd (randomHeight g) = stl g
   \<and> fst (randomHeight g) = randomHeight_loop 1 (shd g)
   \<and> 1 \<le> unat (fst (randomHeight g)) \<and> unat (fst (randomHeight g)) \<le> 20
   \<and> (\<forall>l. 1 \<le> l \<and> l < unat (fst (randomHeight g)) \<longrightarrow> shd g \<le> probabilities ! l)
   \<and> (unat (fst (randomHeight g)) < 20
        \<longrightarrow> probabilities ! unat (fst (randomHeight g)) < shd g)"
proof -
  have len: "length probabilities = 20"
    by (simp add: probabilities_eq)
  have h: "fst (randomHeight g) = randomHeight_loop 1 (shd g)"
    by (simp add: randomHeight_def)
  have b: "unat (1 :: u32) \<le> unat (randomHeight_loop 1 (shd g))
      \<and> unat (randomHeight_loop 1 (shd g)) \<le> 20"
    by (rule randomHeight_loop_bounds) simp
  have below: "shd g \<le> probabilities ! l"
    if "1 \<le> l \<and> l < unat (randomHeight_loop 1 (shd g))" for l
    using that by (intro randomHeight_loop_below [of 1 l "shd g"]) simp_all
  have above: "unat (randomHeight_loop 1 (shd g)) < 20
      \<longrightarrow> probabilities ! unat (randomHeight_loop 1 (shd g)) < shd g"
    using randomHeight_loop_above [of 1 "shd g"] by blast
  have s: "snd (randomHeight g) = stl g"
    by (simp add: randomHeight_def)
  from len probabilities_floor s h b below above show ?thesis
    unfolding h by simp
qed

theorem randomHeight_scans_table_witness:
  "(1 :: nat) \<le> 8 \<and> 8 < unat (fst (randomHeight (1000000 ## sconst 0)))
   \<and> (1000000 :: u32) \<le> probabilities ! 8
   \<and> unat (fst (randomHeight (1000000 ## sconst 0))) < 20
   \<and> probabilities ! unat (fst (randomHeight (1000000 ## sconst 0))) < 1000000
   \<and> fst (randomHeight (1000000 ## sconst 0)) = 9
   \<and> (9 :: nat) < 20
   \<and> uint (probabilities ! 9) = \<lfloor>of_int MaxUint32 * (1 / exp (1::real)) ^ 9\<rfloor>"
proof -
  note T = randomHeight_scans_table [of "1000000 ## sconst 0"]
  have h: "fst (randomHeight (1000000 ## sconst 0)) = 9"
    by (simp add: randomHeight_def randomHeight_loop.simps [of _ 1000000]
        probabilities_eq maxHeight_def)
  have f: "uint (probabilities ! 9) = \<lfloor>of_int MaxUint32 * (1 / exp (1::real)) ^ 9\<rfloor>"
    using T [THEN conjunct2, THEN conjunct1, rule_format, of 9] by simp
  from T f show ?thesis
    unfolding h by (simp add: probabilities_eq)
qed

section \<open>Accessors on a well-laid-out arena\<close>

lemmas layout_defs = off_key_def off_prefix_def off_links_def off_next_def off_prev_def
  linksSize_def maxHeight_def maxNodeSize_def

lemmas addr_defs = key_addr_def prefix_addr_def next_addr_def prev_addr_def node_end_def

lemma getNext_eq:
  "unat n < len_nodes s \<Longrightarrow> unat l < 20 \<Longrightarrow> next_addr n l + 4 \<le> length (nodes s)
     \<Longrightarrow> getNext s n l = Inr (load_le (nodes s) (next_addr n l) 4)"
  by (simp add: getNext_def node_def links_at_def read32_def next_addr_def maxHeight_def)

lemma getPrev_eq:
  "unat n < len_nodes s \<Longrightarrow> unat l < 20 \<Longrightarrow> prev_addr n l + 4 \<le> length (nodes s)
     \<Longrightarrow> getPrev s n l = Inr (load_le (nodes s) (prev_addr n l) 4)"
  by (simp add: getPrev_def node_def links_at_def read32_def prev_addr_def maxHeight_def)

lemma getKey_eq:
  "unat n < len_nodes s \<Longrightarrow> key_addr n + 4 \<le> length (nodes s)
     \<Longrightarrow> getKey s n = Inr (load_le (nodes s) (key_addr n) 4)"
  by (simp add: getKey_def node_def read32_def key_addr_def)

lemma getKeyPrefix_eq:
  "unat n < len_nodes s \<Longrightarrow> prefix_addr n + 8 \<le> length (nodes s)
     \<Longrightarrow> getKeyPrefix s n = Inr (load_le (nodes s) (prefix_addr n) 8)"
  by (simp add: getKeyPrefix_def node_def read64_def prefix_addr_def)

lemma setNext_eq:
  "unat n < len_nodes s \<Longrightarrow> unat l < 20 \<Longrightarrow> next_addr n l + 4 \<le> length (nodes s)
     \<Longrightarrow> setNext s n l v = Inr (put32 s (next_addr n l) v)"
  by (simp add: setNext_def node_def links_at_def write32_def next_addr_def maxHeight_def put32_def)

lemma setPrev_eq:
  "unat n < len_nodes s \<Longrightarrow> unat l < 20 \<Longrightarrow> prev_addr n l + 4 \<le> length (nodes s)
     \<Longrightarrow> setPrev s n l v = Inr (put32 s (prev_addr n l) v)"
  by (simp add: setPrev_def node_def links_at_def write32_def prev_addr_def maxHeight_def put32_def)

lemma put32_fields [simp]:
  "len_nodes (put32 s a v) = len_nodes s" "length (nodes (put32 s a v)) = length (nodes s)"
  "head (put32 s a v) = head s" "tail (put32 s a v) = tail s"
  "height (put32 s a v) = height s" "storage (put32 s a v) = storage s"
  by (simp_all add: put32_def)

lemma put64_fields [simp]:
  "len_nodes (put64 s a v) = len_nodes s" "length (nodes (put64 s a v)) = length (nodes s)"
  "head (put64 s a v) = head s" "tail (put64 s a v) = tail s"
  "height (put64 s a v) = height s" "storage (put64 s a v) = storage s"
  by (simp_all add: put64_def)

lemma arena_ok_put32 [simp]: "arena_ok (put32 s a v) N ah = arena_ok s N ah"
  by (simp add: arena_ok_def)

lemma arena_ok_put64 [simp]: "arena_ok (put64 s a v) N ah = arena_ok s N ah"
  by (simp add: arena_ok_def)

lemma load_put32_same:
  "a + 4 \<le> length (nodes s) \<Longrightarrow> (load_le (nodes (put32 s a v)) a 4 :: u32) = v"
  unfolding put32_def by (simp add: load_store_same32 del: load_le.simps store_le.simps)

lemma load_put32_other:
  "b + k \<le> a \<or> a + 4 \<le> b
     \<Longrightarrow> (load_le (nodes (put32 s a v)) b k :: 'a::len word) = load_le (nodes s) b k"
  unfolding put32_def by (simp add: load_store_disjoint del: load_le.simps store_le.simps)

lemma load_put64_same:
  "a + 8 \<le> length (nodes s) \<Longrightarrow> (load_le (nodes (put64 s a v)) a 8 :: KeyPrefix) = v"
  unfolding put64_def by (simp add: load_store_same64 del: load_le.simps store_le.simps)

lemma load_put64_other:
  "b + k \<le> a \<or> a + 8 \<le> b
     \<Longrightarrow> (load_le (nodes (put64 s a v)) b k :: 'a::len word) = load_le (nodes s) b k"
  unfolding put64_def by (simp add: load_store_disjoint del: load_le.simps store_le.simps)

text \<open>What membership in a well-laid-out arena gives for one slot.\<close>

lemma arena_slot:
  assumes "arena_ok s N ah" "n \<in> N" "unat l < ah n"
  shows "unat n < len_nodes s" "unat l < 20" "next_addr n l + 8 \<le> node_end n (ah n)"
    "prev_addr n l = next_addr n l + 4" "node_end n (ah n) \<le> length (nodes s)"
    "unat n + 16 \<le> next_addr n l"
proof -
  from assms have a: "1 \<le> ah n" "ah n \<le> 20" "node_end n (ah n) \<le> len_nodes s"
    "len_nodes s \<le> length (nodes s)"
    by (auto simp: arena_ok_def maxHeight_def)
  from assms(3) have "unat l * 8 + 8 \<le> ah n * 8"
    by simp
  with a assms(3) show "unat n < len_nodes s" "unat l < 20" "next_addr n l + 8 \<le> node_end n (ah n)"
    "prev_addr n l = next_addr n l + 4" "node_end n (ah n) \<le> length (nodes s)"
    "unat n + 16 \<le> next_addr n l"
    by (simp_all add: addr_defs layout_defs)
qed

lemma arena_header:
  assumes "arena_ok s N ah" "n \<in> N"
  shows "unat n < len_nodes s" "key_addr n = unat n" "prefix_addr n = unat n + 8"
    "unat n + 16 \<le> node_end n (ah n)" "node_end n (ah n) \<le> length (nodes s)"
  using assms by (auto simp: arena_ok_def addr_defs layout_defs)

lemma arena_apart:
  assumes "arena_ok s N ah" "n \<in> N" "m \<in> N" "n \<noteq> m"
  shows "node_end n (ah n) \<le> unat m \<or> node_end m (ah m) \<le> unat n"
  using assms by (auto simp: arena_ok_def)

lemma slots_apart:
  assumes "arena_ok s N ah" "n \<in> N" "unat l < ah n" "m \<in> N" "unat k < ah m"
    and "\<not> (n = m \<and> l = k)"
  shows "next_addr n l + 8 \<le> next_addr m k \<or> next_addr m k + 8 \<le> next_addr n l"
proof (cases "n = m")
  case True
  with assms(6) have "unat l \<noteq> unat k"
    by (simp add: word_unat_eq_iff)
  then have "unat l * 8 + 8 \<le> unat k * 8 \<or> unat k * 8 + 8 \<le> unat l * 8"
    by arith
  with True show ?thesis
    by (auto simp: addr_defs layout_defs)
next
  case False
  note a = arena_slot [OF assms(1,2,3)] arena_slot [OF assms(1,4,5)]
  from arena_apart [OF assms(1,2,4) False] a show ?thesis
    by arith
qed

lemma slot_header_apart:
  assumes "arena_ok s N ah" "n \<in> N" "unat l < ah n" "m \<in> N"
  shows "next_addr n l + 8 \<le> unat m \<or> unat m + 16 \<le> next_addr n l"
proof (cases "n = m")
  case True
  with arena_slot [OF assms(1,2,3)] show ?thesis by simp
next
  case False
  note a = arena_slot [OF assms(1,2,3)] arena_header [OF assms(1,4)]
  from arena_apart [OF assms(1,2,4) False] a show ?thesis
    by arith
qed

lemma setNext_ok:
  "arena_ok s N ah \<Longrightarrow> n \<in> N \<Longrightarrow> unat l < ah n
     \<Longrightarrow> setNext s n l v = Inr (put32 s (next_addr n l) v)"
  using arena_slot [of s N ah n l] by (intro setNext_eq) simp_all

lemma setPrev_ok:
  "arena_ok s N ah \<Longrightarrow> n \<in> N \<Longrightarrow> unat l < ah n
     \<Longrightarrow> setPrev s n l v = Inr (put32 s (prev_addr n l) v)"
  using arena_slot [of s N ah n l] by (intro setPrev_eq) simp_all

lemma getNext_ok:
  "arena_ok s N ah \<Longrightarrow> n \<in> N \<Longrightarrow> unat l < ah n
     \<Longrightarrow> getNext s n l = Inr (load_le (nodes s) (next_addr n l) 4)"
  using arena_slot [of s N ah n l] by (intro getNext_eq) simp_all

lemma getPrev_ok:
  "arena_ok s N ah \<Longrightarrow> n \<in> N \<Longrightarrow> unat l < ah n
     \<Longrightarrow> getPrev s n l = Inr (load_le (nodes s) (prev_addr n l) 4)"
  using arena_slot [of s N ah n l] by (intro getPrev_eq) simp_all

lemma getKey_ok:
  "arena_ok s N ah \<Longrightarrow> n \<in> N \<Longrightarrow> getKey s n = Inr (load_le (nodes s) (key_addr n) 4)"
  using arena_header [of s N ah n] by (intro getKey_eq) simp_all

lemma getKeyPrefix_ok:
  "arena_ok s N ah \<Longrightarrow> n \<in> N
     \<Longrightarrow> getKeyPrefix s n = Inr (load_le (nodes s) (prefix_addr n) 8)"
  using arena_header [of s N ah n] by (intro getKeyPrefix_eq) simp_all

lemma getNext_put_next:
  assumes "arena_ok s N ah" "n \<in> N" "unat l < ah n" "m \<in> N" "unat k < ah m"
  shows "getNext (put32 s (next_addr n l) v) m k
     = (if m = n \<and> k = l then Inr v else getNext s m k)"
proof (cases "m = n \<and> k = l")
  case True
  with assms arena_slot [OF assms(1,2,3)] show ?thesis
    by (simp add: getNext_ok [of _ N ah] load_put32_same)
next
  case False
  then have "\<not> (n = m \<and> l = k)" by blast
  from slots_apart [OF assms this] have "next_addr m k + 4 \<le> next_addr n l \<or> next_addr n l + 4 \<le> next_addr m k"
    by arith
  with assms False show ?thesis
    by (auto simp add: getNext_ok [of _ N ah] load_put32_other)
qed

lemma getPrev_put_prev:
  assumes "arena_ok s N ah" "n \<in> N" "unat l < ah n" "m \<in> N" "unat k < ah m"
  shows "getPrev (put32 s (prev_addr n l) v) m k
     = (if m = n \<and> k = l then Inr v else getPrev s m k)"
proof (cases "m = n \<and> k = l")
  case True
  with assms arena_slot [OF assms(1,2,3)] show ?thesis
    by (simp add: getPrev_ok [of _ N ah] load_put32_same)
next
  case False
  then have "\<not> (n = m \<and> l = k)" by blast
  from slots_apart [OF assms this] arena_slot(4) [OF assms(1,2,3)] arena_slot(4) [OF assms(1,4,5)]
  have "prev_addr m k + 4 \<le> prev_addr n l \<or> prev_addr n l + 4 \<le> prev_addr m k"
    by arith
  with assms False show ?thesis
    by (auto simp add: getPrev_ok [of _ N ah] load_put32_other)
qed

lemma getNext_put_prev:
  assumes "arena_ok s N ah" "n \<in> N" "unat l < ah n" "m \<in> N" "unat k < ah m"
  shows "getNext (put32 s (prev_addr n l) v) m k = getNext s m k"
proof -
  have "next_addr m k + 4 \<le> prev_addr n l \<or> prev_addr n l + 4 \<le> next_addr m k"
  proof (cases "n = m \<and> l = k")
    case True
    with arena_slot(4) [OF assms(1,2,3)] show ?thesis by simp
  next
    case False
    from slots_apart [OF assms this] arena_slot(4) [OF assms(1,2,3)] show ?thesis
      by arith
  qed
  with assms show ?thesis
    by (simp add: getNext_ok [of _ N ah] load_put32_other)
qed

lemma getPrev_put_next:
  assumes "arena_ok s N ah" "n \<in> N" "unat l < ah n" "m \<in> N" "unat k < ah m"
  shows "getPrev (put32 s (next_addr n l) v) m k = getPrev s m k"
proof -
  have "prev_addr m k + 4 \<le> next_addr n l \<or> next_addr n l + 4 \<le> prev_addr m k"
  proof (cases "n = m \<and> l = k")
    case True
    with arena_slot(4) [OF assms(1,2,3)] show ?thesis by simp
  next
    case False
    from slots_apart [OF assms this] arena_slot(4) [OF assms(1,4,5)] show ?thesis
      by arith
  qed
  with assms show ?thesis
    by (simp add: getPrev_ok [of _ N ah] load_put32_other)
qed

lemma getKey_put_link:
  assumes "arena_ok s N ah" "n \<in> N" "unat l < ah n" "m \<in> N"
    and "a = next_addr n l \<or> a = prev_addr n l"
  shows "getKey (put32 s a v) m = getKey s m"
proof -
  from slot_header_apart [OF assms(1-4)] arena_slot(4) [OF assms(1,2,3)] assms(5)
    arena_header(2) [OF assms(1,4)]
  have "key_addr m + 4 \<le> a \<or> a + 4 \<le> key_addr m"
    by arith
  with assms show ?thesis
    by (simp add: getKey_ok [of _ N ah] load_put32_other)
qed

lemma getKeyPrefix_put_link:
  assumes "arena_ok s N ah" "n \<in> N" "unat l < ah n" "m \<in> N"
    and "a = next_addr n l \<or> a = prev_addr n l"
  shows "getKeyPrefix (put32 s a v) m = getKeyPrefix s m"
proof -
  from slot_header_apart [OF assms(1-4)] arena_slot(4) [OF assms(1,2,3)] assms(5)
    arena_header(3) [OF assms(1,4)]
  have "prefix_addr m + 8 \<le> a \<or> a + 4 \<le> prefix_addr m"
    by arith
  with assms show ?thesis
    by (simp add: getKeyPrefix_ok [of _ N ah] load_put32_other)
qed

section \<open>Allocation\<close>

lemma unat_of_nat32: "n < 2 ^ 32 \<Longrightarrow> unat (word_of_nat n :: u32) = n"
  by (simp add: unat_of_nat)

lemma alloc_fits:
  assumes "len_nodes s + unat sz < 2 ^ 32" and "len_nodes s + unat sz \<le> length (nodes s)"
  shows "alloc s sz = Inr (word_of_nat (len_nodes s), s\<lparr>len_nodes := len_nodes s + unat sz\<rparr>)"
proof -
  have l: "len_nodes s < 2 ^ 32" using assms by simp
  have n: "unat (word_of_nat (len_nodes s) + sz :: u32) = len_nodes s + unat sz"
    using assms l by (simp add: unat_word_ariths unat_of_nat32)
  show ?thesis
    using assms by (simp add: alloc_def Let_def n)
qed

lemma alloc_grows:
  assumes "len_nodes s + unat sz < 2 ^ 32" and "length (nodes s) < len_nodes s + unat sz"
    and "len_nodes s \<le> length (nodes s)"
  shows "alloc s sz = Inr (word_of_nat (len_nodes s),
     s\<lparr>nodes := take (len_nodes s) (nodes s)
          @ replicate (grow_cap (length (nodes s)) (len_nodes s + unat sz) - len_nodes s) 0,
       len_nodes := len_nodes s + unat sz\<rparr>)"
proof -
  let ?n = "len_nodes s + unat sz"
  have l: "len_nodes s < 2 ^ 32" using assms by simp
  have n: "unat (word_of_nat (len_nodes s) + sz :: u32) = ?n"
    using assms l by (simp add: unat_word_ariths unat_of_nat32)
  have d: "unat (word_of_nat (length (nodes s) * 2) :: u32) = (length (nodes s) * 2) mod 2 ^ 32"
    by (simp only: unat_of_nat) simp
  then have d': "unat (word_of_nat (length (nodes s)) * 2 :: u32) = (length (nodes s) * 2) mod 2 ^ 32"
    by simp
  have c: "unat (if (word_of_nat (length (nodes s) * 2) :: u32) < word_of_nat (len_nodes s) + sz
             then word_of_nat (len_nodes s) + sz else word_of_nat (length (nodes s) * 2))
       = grow_cap (length (nodes s)) ?n"
    by (simp add: grow_cap_def word_less_nat_alt n d d')
  have g: "?n \<le> grow_cap (length (nodes s)) ?n"
    by (simp add: grow_cap_def)
  show ?thesis
    unfolding alloc_def Let_def n c using assms g by simp
qed

lemma alloc_extend:
  assumes "len_nodes s \<le> length (nodes s)" and "len_nodes s + unat sz < 2 ^ 32"
  shows "alloc s sz = Inr (word_of_nat (len_nodes s), extend s (len_nodes s + unat sz))"
proof (cases "len_nodes s + unat sz \<le> length (nodes s)")
  case True
  then show ?thesis
    using alloc_fits [OF assms(2) True] by (simp add: extend_def alloc_nodes_def)
next
  case False
  then have "length (nodes s) < len_nodes s + unat sz" by simp
  from alloc_grows [OF assms(2) this assms(1)] this show ?thesis
    by (simp add: extend_def alloc_nodes_def)
qed

lemma length_alloc_nodes:
  "len_nodes s \<le> length (nodes s) \<Longrightarrow> n \<le> length (alloc_nodes s n)"
  by (simp add: alloc_nodes_def grow_cap_def)

lemma load_alloc_nodes:
  "b + k \<le> len_nodes s \<Longrightarrow> len_nodes s \<le> length (nodes s)
     \<Longrightarrow> (load_le (alloc_nodes s n) b k :: 'a::len word) = load_le (nodes s) b k"
  by (simp add: alloc_nodes_def load_le_append_take del: load_le.simps)

lemma extend_fields [simp]:
  "len_nodes (extend s n) = n" "nodes (extend s n) = alloc_nodes s n"
  "head (extend s n) = head s" "tail (extend s n) = tail s"
  "height (extend s n) = height s" "storage (extend s n) = storage s"
  by (simp_all add: extend_def)

lemma node_size:
  "unat h \<le> 20 \<Longrightarrow> maxNodeSize - (maxHeight - unat h) * linksSize = 16 + 8 * unat h"
  by (simp add: layout_defs)

lemma unat_node_size:
  assumes "unat h \<le> 20"
  shows "unat (word_of_nat (maxNodeSize - (maxHeight - unat h) * linksSize) :: u32)
       = 16 + 8 * unat h"
proof -
  have "16 + 8 * unat h < 2 ^ 32"
    using assms by simp
  then have "unat (word_of_nat (16 + 8 * unat h) :: u32) = 16 + 8 * unat h"
    by (rule unat_of_nat32)
  then show ?thesis
    unfolding node_size [OF assms] .
qed

lemma height_check: "(h < 1 \<or> h > word_of_nat maxHeight) = (unat (h :: u32) < 1 \<or> 20 < unat h)"
  by (simp add: maxHeight_def word_less_nat_alt)

lemma newNode_height: "unat h < 1 \<or> 20 < unat h \<Longrightarrow> newNode s h key prefix = Inl HeightOutOfRange"
  unfolding newNode_def height_check by simp

lemma newNode_extend:
  assumes "len_nodes s \<le> length (nodes s)" and "1 \<le> unat h" "unat h \<le> 20"
    and "len_nodes s + 16 + 8 * unat h < 2 ^ 32"
  shows "newNode s h key prefix = Inr (word_of_nat (len_nodes s),
      put64 (put32 (extend s (len_nodes s + 16 + 8 * unat h)) (len_nodes s) key)
        (len_nodes s + 8) prefix)"
proof -
  let ?sz = "word_of_nat (maxNodeSize - (maxHeight - unat h) * linksSize) :: u32"
  let ?n = "len_nodes s + 16 + 8 * unat h"
  have sz: "unat ?sz = 16 + 8 * unat h"
    using assms by (simp add: unat_node_size)
  have a: "alloc s ?sz = Inr (word_of_nat (len_nodes s), extend s ?n)"
    using alloc_extend [of s ?sz] assms by (simp add: sz add.assoc)
  have l: "unat (word_of_nat (len_nodes s) :: u32) = len_nodes s"
    using assms by (simp add: unat_of_nat32)
  have c: "?n \<le> length (alloc_nodes s ?n)"
    using assms by (intro length_alloc_nodes)
  have hc: "\<not> (h < 1 \<or> h > word_of_nat maxHeight)"
    unfolding height_check using assms by simp
  show ?thesis
    unfolding newNode_def Let_def using hc a l c
    by (simp add: node_def write32_def write64_def put32_def put64_def off_key_def off_prefix_def)
qed

section \<open>Construction\<close>

lemma link_levels_ok:
  assumes "arena_ok s {head s, tail s} ah" "ah (head s) = 20" "ah (tail s) = 20"
    and "unat i + n = 20"
  shows "\<exists>s'. link_levels s i n = Inr s'
     \<and> arena_ok s' {head s, tail s} ah
     \<and> head s' = head s \<and> tail s' = tail s \<and> height s' = height s \<and> storage s' = storage s
     \<and> len_nodes s' = len_nodes s \<and> length (nodes s') = length (nodes s)
     \<and> (\<forall>l. unat i \<le> unat l \<and> unat l < 20
           \<longrightarrow> getNext s' (head s) l = Inr (tail s) \<and> getPrev s' (tail s) l = Inr (head s))
     \<and> (\<forall>l. unat l < unat i
           \<longrightarrow> getNext s' (head s) l = getNext s (head s) l
             \<and> getPrev s' (tail s) l = getPrev s (tail s) l)"
  using assms
proof (induction n arbitrary: s i)
  case 0
  then show ?case by auto
next
  case (Suc n)
  let ?N = "{head s, tail s}"
  let ?s1 = "put32 s (next_addr (head s) i) (tail s)"
  let ?s2 = "put32 ?s1 (prev_addr (tail s) i) (head s)"
  from Suc.prems have i: "unat i < 20" by simp
  then have i': "unat (i + 1) = Suc (unat i)"
    by (simp add: unat_word_ariths)
  have ok: "arena_ok s ?N ah" by fact
  have hN: "head s \<in> ?N" "tail s \<in> ?N" by simp_all
  have ih: "unat i < ah (head s)" "unat i < ah (tail s)"
    using Suc.prems i by simp_all
  have s1: "setNext s (head s) i (tail s) = Inr ?s1"
    by (rule setNext_ok [OF ok hN(1) ih(1)])
  have ok1: "arena_ok ?s1 ?N ah" using ok by simp
  have s2: "setPrev ?s1 (tail ?s1) i (head ?s1) = Inr ?s2"
    using setPrev_ok [OF ok1 hN(2) ih(2)] by simp
  have ok2: "arena_ok ?s2 {head ?s2, tail ?s2} ah" using ok by simp
  have pre: "ah (head ?s2) = 20" "ah (tail ?s2) = 20" "unat (i + 1) + n = 20"
    using Suc.prems i' by simp_all
  have "\<exists>s'. link_levels ?s2 (i + 1) n = Inr s'
     \<and> arena_ok s' ?N ah
     \<and> head s' = head s \<and> tail s' = tail s \<and> height s' = height s \<and> storage s' = storage s
     \<and> len_nodes s' = len_nodes s \<and> length (nodes s') = length (nodes s)
     \<and> (\<forall>l. Suc (unat i) \<le> unat l \<and> unat l < 20
           \<longrightarrow> getNext s' (head s) l = Inr (tail s) \<and> getPrev s' (tail s) l = Inr (head s))
     \<and> (\<forall>l. unat l < Suc (unat i)
           \<longrightarrow> getNext s' (head s) l = getNext ?s2 (head s) l
             \<and> getPrev s' (tail s) l = getPrev ?s2 (tail s) l)"
    using Suc.IH [OF ok2 pre] by (simp add: i')
  then obtain s' where r: "link_levels ?s2 (i + 1) n = Inr s'"
    and ok': "arena_ok s' ?N ah"
    and f: "head s' = head s" "tail s' = tail s" "height s' = height s" "storage s' = storage s"
      "len_nodes s' = len_nodes s" "length (nodes s') = length (nodes s)"
    and up: "\<And>l. Suc (unat i) \<le> unat l \<and> unat l < 20
           \<Longrightarrow> getNext s' (head s) l = Inr (tail s) \<and> getPrev s' (tail s) l = Inr (head s)"
    and lo: "\<And>l. unat l < Suc (unat i)
           \<Longrightarrow> getNext s' (head s) l = getNext ?s2 (head s) l
             \<and> getPrev s' (tail s) l = getPrev ?s2 (tail s) l"
    by blast
  have here: "getNext ?s2 (head s) i = Inr (tail s)" "getPrev ?s2 (tail s) i = Inr (head s)"
    using getNext_put_prev [OF ok1 hN(2) ih(2) hN(1) ih(1)]
      getNext_put_next [OF ok hN(1) ih(1) hN(1) ih(1)]
      getPrev_put_prev [OF ok1 hN(2) ih(2) hN(2) ih(2)]
    by simp_all
  have below: "getNext ?s2 (head s) l = getNext s (head s) l
      \<and> getPrev ?s2 (tail s) l = getPrev s (tail s) l" if "unat l < unat i" for l
  proof -
    from that i Suc.prems have l: "unat l < ah (head s)" "unat l < ah (tail s)" "l \<noteq> i"
      by auto
    show ?thesis
      using getNext_put_prev [OF ok1 hN(2) ih(2) hN(1) l(1)]
        getNext_put_next [OF ok hN(1) ih(1) hN(1) l(1)]
        getPrev_put_prev [OF ok1 hN(2) ih(2) hN(2) l(2)]
        getPrev_put_next [OF ok hN(1) ih(1) hN(2) l(2)] l(3)
      by simp
  qed
  have "link_levels s i (Suc n) = Inr s'"
    using s1 s2 r by simp
  moreover have "getNext s' (head s) l = Inr (tail s) \<and> getPrev s' (tail s) l = Inr (head s)"
    if "unat i \<le> unat l \<and> unat l < 20" for l
  proof (cases "l = i")
    case True
    with lo [of i] here show ?thesis by simp
  next
    case False
    with that have "Suc (unat i) \<le> unat l \<and> unat l < 20"
      by (auto simp: word_unat_eq_iff)
    then show ?thesis by (rule up)
  qed
  moreover have "getNext s' (head s) l = getNext s (head s) l
      \<and> getPrev s' (tail s) l = getPrev s (tail s) l" if "unat l < unat i" for l
    using lo [of l] below [OF that] that by simp
  ultimately show ?case
    using ok' f by blast
qed

lemma literal_fields [simp]:
  "len_nodes (literal st c) = 0" "length (nodes (literal st c)) = c"
  "height (literal st c) = 1" "storage (literal st c) = st"
  by (simp_all add: literal_def)

lemma emptySkiplist_made:
  "ib \<le> maxAlloc \<Longrightarrow> emptySkiplist st ib = Inr (literal st (nat (max ib 256)))"
  by (simp add: emptySkiplist_def make_bytes_def literal_def Let_def max_def maxAlloc_def)

lemma emptySkiplist_refused:
  "maxAlloc < ib \<Longrightarrow> emptySkiplist st ib = Inl MakeSliceOutOfRange"
  by (simp add: emptySkiplist_def make_bytes_def Let_def maxAlloc_def)

lemma NewSkiplist_refused: "maxAlloc < ib \<Longrightarrow> NewSkiplist st ib = Inl MakeSliceOutOfRange"
  by (simp add: NewSkiplist_def emptySkiplist_refused)

lemma NewSkiplist_ok:
  assumes "ib \<le> maxAlloc"
  shows "\<exists>s. NewSkiplist st ib = Inr s \<and> head s = 0 \<and> tail s = 176 \<and> height s = 1
     \<and> storage s = st \<and> len_nodes s = 352
     \<and> length (nodes s) = (if nat (max ib 256) < 352 then 2 * nat (max ib 256) else nat (max ib 256))
     \<and> arena_ok s {0, 176} (\<lambda>n. 20)
     \<and> (\<forall>l. unat l < 20 \<longrightarrow> getNext s 0 l = Inr 176 \<and> getPrev s 176 l = Inr 0)"
proof -
  define c where "c = nat (max ib 256)"
  let ?s0 = "literal st c"
  have e: "emptySkiplist st ib = Inr ?s0"
    unfolding c_def by (rule emptySkiplist_made [OF assms])
  have c: "256 \<le> c" "length (nodes ?s0) = c"
    by (simp_all add: c_def)
  let ?s1 = "(put64 (put32 (extend ?s0 176) 0 0) 8 0)\<lparr>head := 0\<rparr>"
  have n1: "newNode ?s0 (word_of_nat maxHeight) 0 0 = Inr (0, put64 (put32 (extend ?s0 176) 0 0) 8 0)"
    using newNode_extend [of ?s0 20 0 0] c by (simp add: maxHeight_def)
  have l1: "len_nodes ?s1 = 176" "length (nodes ?s1) = c"
    using c by (simp_all add: alloc_nodes_def)
  let ?s2 = "(put64 (put32 (extend ?s1 352) 176 0) 184 0)\<lparr>tail := 176\<rparr>"
  have n2: "newNode ?s1 (word_of_nat maxHeight) 0 0 = Inr (176, put64 (put32 (extend ?s1 352) 176 0) 184 0)"
    using newNode_extend [of ?s1 20 0 0] l1 c by (simp add: maxHeight_def)
  have f2: "head ?s2 = 0" "tail ?s2 = 176" "height ?s2 = 1" "storage ?s2 = st" "len_nodes ?s2 = 352"
    by simp_all
  have len2: "length (nodes ?s2) = (if c < 352 then 2 * c else c)"
    using c l1 by (simp add: alloc_nodes_def grow_cap_def)
  have ok2: "arena_ok ?s2 {head ?s2, tail ?s2} (\<lambda>n. 20)"
    using len2 c by (simp add: arena_ok_def node_end_def layout_defs)
  from link_levels_ok [OF ok2, of 0 20]
  obtain s' where r: "link_levels ?s2 0 maxHeight = Inr s'"
    and p: "arena_ok s' {0, 176} (\<lambda>n. 20)" "head s' = 0" "tail s' = 176" "height s' = 1"
      "storage s' = st" "len_nodes s' = 352" "length (nodes s') = length (nodes ?s2)"
      "\<forall>l. unat l < 20 \<longrightarrow> getNext s' 0 l = Inr 176 \<and> getPrev s' 176 l = Inr 0"
    by (auto simp: maxHeight_def)
  have "NewSkiplist st ib = Inr s'"
    unfolding NewSkiplist_def e using n1 n2 r by simp
  with p len2 show ?thesis
    unfolding c_def by auto
qed

section \<open>Node construction and the 32-bit limit\<close>

lemma alloc_full: "alloc full_arena 176 = Inr (4294967248, full_arena\<lparr>len_nodes := 128\<rparr>)"
  by (simp add: alloc_def full_arena_def Let_def)

lemma alloc_full2: "alloc (full_arena\<lparr>len_nodes := 128\<rparr>) 176 = Inr (128, full_arena\<lparr>len_nodes := 304\<rparr>)"
  by (simp add: alloc_def full_arena_def Let_def)

lemma newNode_full: "newNode full_arena 20 0 0 = Inl IndexOutOfRange"
proof -
  have "node (full_arena\<lparr>len_nodes := 128\<rparr>) 4294967248 = Inl IndexOutOfRange"
    by (simp add: node_def)
  then show ?thesis
    by (simp add: newNode_def alloc_full maxHeight_def linksSize_def maxNodeSize_def)
qed

lemma alloc_panic: "alloc s sz \<noteq> Inl HeightOutOfRange"
  by (simp add: alloc_def Let_def split: sum.split)

lemma write32_panic: "write32 s a v \<noteq> Inl HeightOutOfRange"
  by (simp add: write32_def)

lemma write64_panic: "write64 s a v \<noteq> Inl HeightOutOfRange"
  by (simp add: write64_def)

lemma node_panic: "node s n \<noteq> Inl HeightOutOfRange"
  by (simp add: node_def)

lemma newNode_height_iff:
  "newNode s h key prefix = Inl HeightOutOfRange \<longleftrightarrow> unat h < 1 \<or> 20 < unat h"
proof (cases "unat h < 1 \<or> 20 < unat h")
  case True
  then show ?thesis by (simp add: newNode_height)
next
  case False
  then have "\<not> (h < 1 \<or> h > word_of_nat maxHeight)"
    unfolding height_check .
  then have "newNode s h key prefix \<noteq> Inl HeightOutOfRange"
    unfolding newNode_def Let_def
    using alloc_panic write32_panic write64_panic node_panic
    by (auto split: sum.split prod.split)
  with False show ?thesis by simp
qed

section \<open>Splice search\<close>

lemma loop_tail:
  "getNext s prev level = Inr (tail s)
     \<Longrightarrow> findSpliceForLevel_loop s key prefix level prev calls
       = Some (Inr (s, prev, tail s, False, calls))"
  by (subst findSpliceForLevel_loop.simps) simp

lemma loop_greater:
  "getNext s prev level = Inr n \<Longrightarrow> n \<noteq> tail s \<Longrightarrow> getKeyPrefix s n = Inr q \<Longrightarrow> prefix < q
     \<Longrightarrow> findSpliceForLevel_loop s key prefix level prev calls
       = Some (Inr (s, prev, n, False, calls))"
  by (subst findSpliceForLevel_loop.simps) simp

lemma loop_less:
  "getNext s prev level = Inr n \<Longrightarrow> n \<noteq> tail s \<Longrightarrow> getKeyPrefix s n = Inr q \<Longrightarrow> q < prefix
     \<Longrightarrow> findSpliceForLevel_loop s key prefix level prev calls
       = findSpliceForLevel_loop s key prefix level n calls"
  by (subst findSpliceForLevel_loop.simps) auto

lemma loop_equal_found:
  "getNext s prev level = Inr n \<Longrightarrow> n \<noteq> tail s \<Longrightarrow> getKeyPrefix s n = Inr prefix
     \<Longrightarrow> getKey s n = Inr k \<Longrightarrow> Compare (storage s) key k = 0
     \<Longrightarrow> findSpliceForLevel_loop s key prefix level prev calls
       = Some (Inr (s, prev, n, True, calls @ [n]))"
  by (subst findSpliceForLevel_loop.simps) simp

lemma loop_equal_stop:
  "getNext s prev level = Inr n \<Longrightarrow> n \<noteq> tail s \<Longrightarrow> getKeyPrefix s n = Inr prefix
     \<Longrightarrow> getKey s n = Inr k \<Longrightarrow> Compare (storage s) key k < 0
     \<Longrightarrow> findSpliceForLevel_loop s key prefix level prev calls
       = Some (Inr (s, prev, n, False, calls @ [n]))"
  by (subst findSpliceForLevel_loop.simps) simp

lemma loop_equal_advance:
  "getNext s prev level = Inr n \<Longrightarrow> n \<noteq> tail s \<Longrightarrow> getKeyPrefix s n = Inr prefix
     \<Longrightarrow> getKey s n = Inr k \<Longrightarrow> 0 < Compare (storage s) key k
     \<Longrightarrow> findSpliceForLevel_loop s key prefix level prev calls
       = findSpliceForLevel_loop s key prefix level n (calls @ [n])"
  by (subst findSpliceForLevel_loop.simps) simp

text \<open>What holds of every result of the loop, whatever the arena looks like.\<close>

lemma loop_post_more:
  "loop_post s key prefix level (calls @ [x]) y \<Longrightarrow> x \<noteq> tail s
     \<Longrightarrow> getKeyPrefix s x = Inr prefix \<Longrightarrow> loop_post s key prefix level calls y"
  unfolding loop_post_def by fastforce

lemma loop_post_panic: "loop_post s key prefix level calls (Inl e)"
  by (simp add: loop_post_def)

lemma loop_post_stop:
  "getNext s p level = Inr n \<Longrightarrow> f = hits s key prefix n \<Longrightarrow> \<not> passes s key prefix n
     \<Longrightarrow> loop_post s key prefix level calls (Inr (s, p, n, f, calls))"
  by (simp add: loop_post_def)

lemma loop_post_stop_cmp:
  "getNext s p level = Inr n \<Longrightarrow> f = hits s key prefix n \<Longrightarrow> \<not> passes s key prefix n
     \<Longrightarrow> n \<noteq> tail s \<Longrightarrow> getKeyPrefix s n = Inr prefix
     \<Longrightarrow> loop_post s key prefix level calls (Inr (s, p, n, f, calls @ [n]))"
  by (simp add: loop_post_def)

lemma loop_result:
  assumes "findSpliceForLevel_loop s key prefix level prev calls = Some y"
  shows "loop_post s key prefix level calls y"
proof (rule findSpliceForLevel_loop.raw_induct
    [where P = "\<lambda>s key prefix level prev calls y. loop_post s key prefix level calls y",
      OF _ assms])
  fix loop :: "Skiplist \<Rightarrow> byte list \<Rightarrow> KeyPrefix \<Rightarrow> u32 \<Rightarrow> u32 \<Rightarrow> u32 list
      \<Rightarrow> (panic + (Skiplist \<times> u32 \<times> u32 \<times> bool \<times> u32 list)) option"
    and s key prefix level prev calls y
  assume IH: "\<And>s key prefix level prev calls y.
      loop s key prefix level prev calls = Some y \<Longrightarrow> loop_post s key prefix level calls y"
  assume body: "(case getNext s prev level of Inl e \<Rightarrow> Some (Inl e)
      | Inr next \<Rightarrow>
          if next = tail s then Some (Inr (s, prev, next, False, calls))
          else
            (case getKeyPrefix s next of Inl e \<Rightarrow> Some (Inl e)
             | Inr nextPrefix \<Rightarrow>
                 if prefix < nextPrefix then Some (Inr (s, prev, next, False, calls))
                 else if prefix = nextPrefix then
                   (case getKey s next of Inl e \<Rightarrow> Some (Inl e)
                    | Inr k \<Rightarrow>
                        if Compare (storage s) key k = 0
                        then Some (Inr (s, prev, next, True, calls @ [next]))
                        else if Compare (storage s) key k < 0
                        then Some (Inr (s, prev, next, False, calls @ [next]))
                        else loop s key prefix level next (calls @ [next]))
                 else loop s key prefix level next calls)) = Some y"
  show "loop_post s key prefix level calls y"
  proof (cases "getNext s prev level")
    case (Inl e)
    with body have "y = Inl e" by simp
    then show ?thesis by (simp add: loop_post_panic)
  next
    case (Inr nx)
    note nx = this
    show ?thesis
    proof (cases "nx = tail s")
      case True
      with body nx have y: "y = Inr (s, prev, nx, False, calls)" by simp
      have "\<not> hits s key prefix nx" "\<not> passes s key prefix nx"
        using True by (simp_all add: hits_def passes_def)
      with nx show ?thesis
        unfolding y by (intro loop_post_stop) simp_all
    next
      case False
      note nt = this
      show ?thesis
      proof (cases "getKeyPrefix s nx")
        case (Inl e)
        with body nx nt have "y = Inl e" by simp
        then show ?thesis by (simp add: loop_post_panic)
      next
        case (Inr q)
        note q = this
        consider "prefix < q" | "q < prefix" | "q = prefix"
          using less_linear [of prefix q] by blast
        then show ?thesis
        proof cases
          case 1
          with body nx nt q have y: "y = Inr (s, prev, nx, False, calls)" by simp
          from 1 have "q \<noteq> prefix" "\<not> q < prefix"
            by simp_all
          then have "\<not> hits s key prefix nx" "\<not> passes s key prefix nx"
            using q by (simp_all add: hits_def passes_def)
          with nx show ?thesis
            unfolding y by (intro loop_post_stop) simp_all
        next
          case 2
          then have "\<not> prefix < q" "prefix \<noteq> q"
            by simp_all
          with body nx nt q have "loop s key prefix level nx calls = Some y"
            by simp
          then show ?thesis by (rule IH)
        next
          case 3
          with q have qp: "getKeyPrefix s nx = Inr prefix"
            by simp
          from body nx nt qp
          have body': "(case getKey s nx of Inl e \<Rightarrow> Some (Inl e)
                    | Inr k \<Rightarrow>
                        if Compare (storage s) key k = 0
                        then Some (Inr (s, prev, nx, True, calls @ [nx]))
                        else if Compare (storage s) key k < 0
                        then Some (Inr (s, prev, nx, False, calls @ [nx]))
                        else loop s key prefix level nx (calls @ [nx])) = Some y"
            by simp
          show ?thesis
          proof (cases "getKey s nx")
            case (Inl e)
            with body' have "y = Inl e" by simp
            then show ?thesis by (simp add: loop_post_panic)
          next
            case (Inr k)
            note k = this
            consider "Compare (storage s) key k = 0" | "Compare (storage s) key k < 0"
              | "0 < Compare (storage s) key k"
              using less_linear [of "Compare (storage s) key k" 0] by blast
            then show ?thesis
            proof cases
              case 1
              with body' k have y: "y = Inr (s, prev, nx, True, calls @ [nx])"
                by simp
              have "hits s key prefix nx" "\<not> passes s key prefix nx"
                using 1 qp k nt by (simp_all add: hits_def passes_def)
              with nx nt qp show ?thesis
                unfolding y by (intro loop_post_stop_cmp) simp_all
            next
              case 2
              with body' k have y: "y = Inr (s, prev, nx, False, calls @ [nx])"
                by simp
              have "\<not> hits s key prefix nx" "\<not> passes s key prefix nx"
                using 2 qp k nt by (simp_all add: hits_def passes_def)
              with nx nt qp show ?thesis
                unfolding y by (intro loop_post_stop_cmp) simp_all
            next
              case 3
              then have "Compare (storage s) key k \<noteq> 0" "\<not> Compare (storage s) key k < 0"
                by simp_all
              with body' k
              have "loop s key prefix level nx (calls @ [nx]) = Some y"
                by simp
              then have lp: "loop_post s key prefix level (calls @ [nx]) y"
                by (rule IH)
              show ?thesis
                by (rule loop_post_more [OF lp nt qp])
            qed
          qed
        qed
      qed
    qed
  qed
qed

lemma passes_reads:
  "passes s key prefix n \<Longrightarrow>
     n \<noteq> tail s \<and> (\<exists>q. getKeyPrefix s n = Inr q
        \<and> (q < prefix \<or> (q = prefix \<and> (\<exists>k. getKey s n = Inr k \<and> 0 < Compare (storage s) key k))))"
  by (auto simp: passes_def split: sum.splits)

lemma loop_passes:
  assumes "getNext s a level = Inr n" "passes s key prefix n"
  shows "findSpliceForLevel_loop s key prefix level a calls
     = findSpliceForLevel_loop s key prefix level n (calls @ compared s prefix [n])"
proof -
  from passes_reads [OF assms(2)] obtain q where nt: "n \<noteq> tail s" and q: "getKeyPrefix s n = Inr q"
    and c: "q < prefix \<or> (q = prefix \<and> (\<exists>k. getKey s n = Inr k \<and> 0 < Compare (storage s) key k))"
    by blast
  from c show ?thesis
  proof
    assume lt: "q < prefix"
    then have "q \<noteq> prefix" by simp
    with loop_less [OF assms(1) nt q lt, of key calls] q show ?thesis
      by (simp add: compared_def)
  next
    assume "q = prefix \<and> (\<exists>k. getKey s n = Inr k \<and> 0 < Compare (storage s) key k)"
    then obtain k where e: "getKeyPrefix s n = Inr prefix" "getKey s n = Inr k"
      "0 < Compare (storage s) key k"
      using q by blast
    from loop_equal_advance [OF assms(1) nt e] nt e(1) show ?thesis
      by (simp add: compared_def)
  qed
qed

lemma loop_stops:
  assumes "getNext s a level = Inr n" "\<not> passes s key prefix n" "probe_ok s prefix n"
  shows "findSpliceForLevel_loop s key prefix level a calls
     = Some (Inr (s, a, n, hits s key prefix n, calls @ compared s prefix [n]))"
proof (cases "n = tail s")
  case True
  with loop_tail [of s a level] assms(1) show ?thesis
    by (simp add: hits_def compared_def)
next
  case False
  with assms(3) obtain q where q: "getKeyPrefix s n = Inr q"
    and k: "q = prefix \<longrightarrow> (\<exists>k. getKey s n = Inr k)"
    by (auto simp: probe_ok_def)
  show ?thesis
  proof (cases "q = prefix")
    case True
    with k q obtain k where e: "getKeyPrefix s n = Inr prefix" "getKey s n = Inr k"
      by auto
    from assms(2) False e have le: "\<not> 0 < Compare (storage s) key k"
      by (simp add: passes_def)
    show ?thesis
    proof (cases "Compare (storage s) key k = 0")
      case True
      from loop_equal_found [OF assms(1) False e True] False e True show ?thesis
        by (simp add: hits_def compared_def)
    next
      case F: False
      with le have lt: "Compare (storage s) key k < 0" by simp
      from loop_equal_stop [OF assms(1) False e lt] False e F show ?thesis
        by (simp add: hits_def compared_def)
    qed
  next
    case F: False
    with assms(2) False q have "prefix < q"
      by (simp add: passes_def)
    from loop_greater [OF assms(1) False q this] False q F show ?thesis
      by (auto simp add: hits_def compared_def)
  qed
qed

lemma walk_chain:
  assumes "next_chain s level a ns" "\<forall>n\<in>set ns. probe_ok s prefix n"
    and "\<exists>n\<in>set ns. \<not> passes s key prefix n"
  shows "findSpliceForLevel_loop s key prefix level a calls
     = Some (Inr (s, last (a # takeWhile (passes s key prefix) ns),
          hd (dropWhile (passes s key prefix) ns),
          hits s key prefix (hd (dropWhile (passes s key prefix) ns)),
          calls @ compared s prefix
            (takeWhile (passes s key prefix) ns @ [hd (dropWhile (passes s key prefix) ns)])))"
  using assms
proof (induction ns arbitrary: a calls)
  case Nil
  then show ?case by simp
next
  case (Cons n ns)
  from Cons.prems(1) have nx: "getNext s a level = Inr n" and ch: "next_chain s level n ns"
    by simp_all
  show ?case
  proof (cases "passes s key prefix n")
    case True
    with Cons.prems(3) have ex: "\<exists>n\<in>set ns. \<not> passes s key prefix n"
      by auto
    from Cons.prems(2) have pr: "\<forall>n\<in>set ns. probe_ok s prefix n"
      by simp
    have "findSpliceForLevel_loop s key prefix level a calls
        = findSpliceForLevel_loop s key prefix level n (calls @ compared s prefix [n])"
      by (rule loop_passes [OF nx True])
    also note Cons.IH [OF ch pr ex, of "calls @ compared s prefix [n]"]
    finally show ?thesis
      using True by (simp add: compared_def)
  next
    case False
    from Cons.prems(2) have "probe_ok s prefix n" by simp
    from loop_stops [OF nx False this, of calls] False show ?thesis
      by simp
  qed
qed

section \<open>Chains of links\<close>



lemma linked_cong:
  "(\<And>a. a \<in> set (butlast xs) \<Longrightarrow> getNext s' a l = getNext s a l)
     \<Longrightarrow> (\<And>b. b \<in> set (tl xs) \<Longrightarrow> getPrev s' b l = getPrev s b l)
     \<Longrightarrow> linked s' l xs = linked s l xs"
proof (induction s l xs rule: linked.induct)
  case (1 s l)
  then show ?case by simp
next
  case (2 s l a)
  then show ?case by simp
next
  case (3 s l a b xs)
  have "linked s' l (b # xs) = linked s l (b # xs)"
    using "3.prems" by (intro "3.IH") auto
  with "3.prems" show ?case by auto
qed

lemma level_list_append [simp]:
  "level_list lh i (xs @ ys) = level_list lh i xs @ level_list lh i ys"
  by (simp add: level_list_def)







section \<open>Keys in order\<close>









lemma passes_tail [simp]: "\<not> passes s key prefix (tail s)"
  by (simp add: passes_def)

lemma hits_tail [simp]: "\<not> hits s key prefix (tail s)"
  by (simp add: hits_def)

lemma probe_ok_tail [simp]: "probe_ok s prefix (tail s)"
  by (simp add: probe_ok_def)





text \<open>
  C5 (amended). \<^verbatim>\<open>newNode\<close> raises its height panic exactly when the height is below 1
  or above 20. For a height from 1 to 20, on a slice that lies within its backing
  array and whose length plus the node's size stays below \<open>2 ^ 32\<close>, it does not
  panic: it returns the old slice length as the node's offset and extends the
  slice by exactly \<open>maxNodeSize - (20 - height) * linksSize\<close> bytes, which is the
  16-byte header plus \<open>height\<close> link pairs and is less than \<open>maxNodeSize\<close> when the
  height is below 20.
\<close>

theorem newNode_height_and_size:
  "(newNode s h key prefix = Inl HeightOutOfRange \<longleftrightarrow> h < 1 \<or> 20 < h)
   \<and> (1 \<le> h \<and> h \<le> 20 \<and> len_nodes s \<le> length (nodes s)
        \<and> len_nodes s + (maxNodeSize - (maxHeight - unat h) * linksSize) < 2 ^ 32
      \<longrightarrow> (\<exists>s'. newNode s h key prefix = Inr (word_of_nat (len_nodes s), s')
            \<and> len_nodes s' = len_nodes s + (maxNodeSize - (maxHeight - unat h) * linksSize)
            \<and> maxNodeSize - (maxHeight - unat h) * linksSize = off_links + unat h * linksSize
            \<and> (h < 20 \<longrightarrow> maxNodeSize - (maxHeight - unat h) * linksSize < maxNodeSize)))"
proof -
  have range: "(h < 1 \<or> 20 < h) = (unat h < 1 \<or> 20 < unat h)"
    by (simp add: word_less_nat_alt)
  have a: "newNode s h key prefix = Inl HeightOutOfRange \<longleftrightarrow> h < 1 \<or> 20 < h"
    unfolding range by (rule newNode_height_iff)
  have b: "\<exists>s'. newNode s h key prefix = Inr (word_of_nat (len_nodes s), s')
            \<and> len_nodes s' = len_nodes s + (maxNodeSize - (maxHeight - unat h) * linksSize)
            \<and> maxNodeSize - (maxHeight - unat h) * linksSize = off_links + unat h * linksSize
            \<and> (h < 20 \<longrightarrow> maxNodeSize - (maxHeight - unat h) * linksSize < maxNodeSize)"
    if h: "1 \<le> h" "h \<le> 20" and wf: "len_nodes s \<le> length (nodes s)"
      and room: "len_nodes s + (maxNodeSize - (maxHeight - unat h) * linksSize) < 2 ^ 32"
  proof -
    from h have u: "1 \<le> unat h" "unat h \<le> 20"
      by (simp_all add: word_le_nat_alt)
    have sz: "maxNodeSize - (maxHeight - unat h) * linksSize = 16 + 8 * unat h"
      using u by (simp add: node_size)
    have lt: "h < 20 \<longrightarrow> 16 + 8 * unat h < maxNodeSize"
      by (simp add: word_less_nat_alt maxNodeSize_def)
    from room have "len_nodes s + 16 + 8 * unat h < 2 ^ 32"
      unfolding sz by simp
    from newNode_extend [OF wf u this, of key prefix] lt show ?thesis
      unfolding sz by (simp add: off_links_def linksSize_def)
  qed
  from a b show ?thesis
    by blast
qed

theorem newNode_height_and_size_witness:
  "(1 :: u32) \<le> 3 \<and> (3 :: u32) \<le> 20
   \<and> len_nodes blank_arena \<le> length (nodes blank_arena)
   \<and> len_nodes blank_arena + (maxNodeSize - (maxHeight - unat (3 :: u32)) * linksSize) < 2 ^ 32
   \<and> (3 :: u32) < 20
   \<and> newNode blank_arena 3 7 9 \<noteq> Inl HeightOutOfRange
   \<and> (\<exists>s'. newNode blank_arena 3 7 9 = Inr (0, s') \<and> len_nodes s' = 40)
   \<and> newNode blank_arena 21 7 9 = Inl HeightOutOfRange"
  using newNode_height_and_size [of blank_arena 3 7 9]
    newNode_height_and_size [of blank_arena 21 7 9]
  by (simp add: blank_arena_def layout_defs)

text \<open>
  The claim as first stated, that \<^verbatim>\<open>newNode\<close> never panics for a height from 1 to 20,
  fails on the arena of \<open>2 ^ 32 - 48\<close> bytes: the 32-bit sum in \<^verbatim>\<open>alloc\<close> wraps,
  the slice shrinks to 128 bytes and the bounds check of \<^verbatim>\<open>s.node(offset)\<close> panics.
\<close>

theorem newNode_panics_on_full_arena:
  "(1 :: u32) \<le> 20 \<and> (20 :: u32) \<le> 20
   \<and> len_nodes full_arena \<le> length (nodes full_arena)
   \<and> newNode full_arena 20 0 0 = Inl IndexOutOfRange"
  by (simp add: newNode_full) (simp add: full_arena_def)

text \<open>
  C6. On the arena of \<open>2 ^ 32 - 48\<close> bytes, \<^verbatim>\<open>alloc(176)\<close> returns the slice length
  \<open>4294967248\<close> as the offset, but \<^verbatim>\<open>newSize\<close> wraps to 128, the backing array is
  kept and the slice is cut to 128 bytes. The next \<^verbatim>\<open>alloc(176)\<close> returns offset
  128, below the offset issued before it and inside the head sentinel, which
  occupies the bytes from 0 to 176.
\<close>

theorem alloc_wraps_past_4GiB:
  "alloc full_arena 176 = Inr (4294967248, full_arena\<lparr>len_nodes := 128\<rparr>)
   \<and> alloc (full_arena\<lparr>len_nodes := 128\<rparr>) 176 = Inr (128, full_arena\<lparr>len_nodes := 304\<rparr>)
   \<and> (128 :: u32) < 4294967248
   \<and> unat (head full_arena) \<le> unat (128 :: u32)
   \<and> unat (128 :: u32) < unat (head full_arena) + maxNodeSize"
  using alloc_full alloc_full2 by (simp add: full_arena_def maxNodeSize_def)

text \<open>
  C9 (amended). For every storage and every capacity hint that does not exceed
  the allocator's limit \<open>maxAlloc\<close>, also a zero or a negative one,
  \<^verbatim>\<open>NewSkiplist\<close> makes the arena with capacity \<open>max initBufSize 256\<close> and length 0
  and returns a skiplist: no panic, the two sentinels allocated.
\<close>

theorem NewSkiplist_capacity_hint:
  "initBufSize \<le> maxAlloc \<longrightarrow>
     (\<exists>s0. emptySkiplist st initBufSize = Inr s0
        \<and> length (nodes s0) = nat (max initBufSize 256) \<and> len_nodes s0 = 0)
     \<and> (\<exists>s. NewSkiplist st initBufSize = Inr s \<and> storage s = st \<and> len_nodes s = 352
          \<and> length (nodes s)
              = (if nat (max initBufSize 256) < 352 then 2 * nat (max initBufSize 256)
                 else nat (max initBufSize 256)))"
proof
  assume b: "initBufSize \<le> maxAlloc"
  from NewSkiplist_ok [OF b, of st]
  have "\<exists>s. NewSkiplist st initBufSize = Inr s \<and> storage s = st \<and> len_nodes s = 352
          \<and> length (nodes s)
              = (if nat (max initBufSize 256) < 352 then 2 * nat (max initBufSize 256)
                 else nat (max initBufSize 256))"
    by blast
  moreover have "\<exists>s0. emptySkiplist st initBufSize = Inr s0
        \<and> length (nodes s0) = nat (max initBufSize 256) \<and> len_nodes s0 = 0"
    using emptySkiplist_made [OF b, of st] by simp
  ultimately show "(\<exists>s0. emptySkiplist st initBufSize = Inr s0
        \<and> length (nodes s0) = nat (max initBufSize 256) \<and> len_nodes s0 = 0)
     \<and> (\<exists>s. NewSkiplist st initBufSize = Inr s \<and> storage s = st \<and> len_nodes s = 352
          \<and> length (nodes s)
              = (if nat (max initBufSize 256) < 352 then 2 * nat (max initBufSize 256)
                 else nat (max initBufSize 256)))"
    by blast
qed

theorem NewSkiplist_capacity_hint_witness:
  "(- 7 :: int) \<le> maxAlloc
   \<and> (\<exists>s0. emptySkiplist (table_storage (\<lambda>k. [])) (- 7) = Inr s0
        \<and> length (nodes s0) = 256 \<and> len_nodes s0 = 0)
   \<and> (\<exists>s. NewSkiplist (table_storage (\<lambda>k. [])) (- 7) = Inr s
        \<and> len_nodes s = 352 \<and> length (nodes s) = 512)"
proof -
  have b: "(- 7 :: int) \<le> maxAlloc"
    by (simp add: maxAlloc_def)
  from NewSkiplist_capacity_hint [of "- 7" "table_storage (\<lambda>k. [])"] b show ?thesis
    by auto
qed

text \<open>
  The claim as first stated, for every hint, fails at the hint \<open>2 ^ 62\<close>:
  \<^verbatim>\<open>make\<close> refuses the capacity and \<^verbatim>\<open>NewSkiplist\<close> panics.
\<close>

theorem NewSkiplist_panics_on_huge_hint:
  "emptySkiplist (table_storage (\<lambda>k. [])) 4611686018427387904 = Inl MakeSliceOutOfRange
   \<and> NewSkiplist (table_storage (\<lambda>k. [])) 4611686018427387904 = Inl MakeSliceOutOfRange"
  by (simp add: emptySkiplist_refused NewSkiplist_refused maxAlloc_def)

section \<open>The descent through the levels\<close>





section \<open>A new node leaves the others alone\<close>

lemma fresh_node_fields [simp]:
  "len_nodes (fresh_node s h key prefix) = len_nodes s + 16 + 8 * h"
  "head (fresh_node s h key prefix) = head s" "tail (fresh_node s h key prefix) = tail s"
  "height (fresh_node s h key prefix) = height s" "storage (fresh_node s h key prefix) = storage s"
  by (simp_all add: fresh_node_def)

lemma fresh_node_cap:
  "len_nodes s \<le> length (nodes s)
     \<Longrightarrow> len_nodes s + 16 + 8 * h \<le> length (nodes (fresh_node s h key prefix))"
  by (simp add: fresh_node_def length_alloc_nodes)

lemma load_fresh_node_old:
  assumes "len_nodes s \<le> length (nodes s)" "b + k \<le> len_nodes s"
  shows "(load_le (nodes (fresh_node s h key prefix)) b k :: 'a::len word) = load_le (nodes s) b k"
  using assms
  by (simp add: fresh_node_def load_put64_other load_put32_other load_alloc_nodes
      del: load_le.simps)

lemma load_fresh_node_key:
  assumes "len_nodes s \<le> length (nodes s)"
  shows "(load_le (nodes (fresh_node s h key prefix)) (len_nodes s) 4 :: u32) = key"
proof -
  have "len_nodes s + 4 \<le> length (nodes (extend s (len_nodes s + 16 + 8 * h)))"
    using length_alloc_nodes [OF assms, of "len_nodes s + 16 + 8 * h"] by simp
  then show ?thesis
    by (simp add: fresh_node_def load_put64_other load_put32_same del: load_le.simps)
qed

lemma load_fresh_node_prefix:
  assumes "len_nodes s \<le> length (nodes s)"
  shows "(load_le (nodes (fresh_node s h key prefix)) (len_nodes s + 8) 8 :: KeyPrefix) = prefix"
proof -
  have "len_nodes s + 8 + 8 \<le> length (nodes (put32 (extend s (len_nodes s + 16 + 8 * h)) (len_nodes s) key))"
    using length_alloc_nodes [OF assms, of "len_nodes s + 16 + 8 * h"] by simp
  then show ?thesis
    unfolding fresh_node_def by (rule load_put64_same)
qed


lemma fresh_node_arena:
  assumes ok: "arena_ok s N ah" and h: "1 \<le> h" "h \<le> 20"
    and room: "len_nodes s + 16 + 8 * h < 2 ^ 32"
  shows "word_of_nat (len_nodes s) \<notin> N"
    and "arena_ok (fresh_node s h key prefix) (insert (word_of_nat (len_nodes s)) N)
           (ah(word_of_nat (len_nodes s) := h))"
proof -
  let ?nd = "word_of_nat (len_nodes s) :: u32"
  let ?s' = "fresh_node s h key prefix"
  from room have u: "unat ?nd = len_nodes s"
    by (simp add: unat_of_nat32)
  from ok have wf: "len_nodes s \<le> length (nodes s)"
    and inside: "\<And>n. n \<in> N \<Longrightarrow> 1 \<le> ah n \<and> ah n \<le> 20 \<and> node_end n (ah n) \<le> len_nodes s"
    and apart: "\<And>n m. n \<in> N \<Longrightarrow> m \<in> N \<Longrightarrow> n \<noteq> m
        \<Longrightarrow> node_end n (ah n) \<le> unat m \<or> node_end m (ah m) \<le> unat n"
    by (auto simp: arena_ok_def maxHeight_def)
  show fresh: "?nd \<notin> N"
  proof
    assume "?nd \<in> N"
    from inside [OF this] u show False
      by (simp add: node_end_def layout_defs)
  qed
  have e: "node_end ?nd h = len_nodes s + 16 + 8 * h"
    using u by (simp add: node_end_def layout_defs)
  show "arena_ok ?s' (insert ?nd N) (ah(?nd := h))"
    unfolding arena_ok_def
  proof (intro conjI ballI impI)
    show "len_nodes ?s' \<le> length (nodes ?s')"
      using fresh_node_cap [OF wf] by simp
    show "len_nodes ?s' < 2 ^ 32"
      using room by simp
  next
    fix n assume "n \<in> insert ?nd N"
    then show "1 \<le> (ah(?nd := h)) n" "(ah(?nd := h)) n \<le> maxHeight"
      "node_end n ((ah(?nd := h)) n) \<le> len_nodes ?s'"
      using inside [of n] h e fresh by (auto simp: maxHeight_def)
  next
    fix n m assume nm: "n \<in> insert ?nd N" "m \<in> insert ?nd N" "n \<noteq> m"
    show "node_end n ((ah(?nd := h)) n) \<le> unat m \<or> node_end m ((ah(?nd := h)) m) \<le> unat n"
    proof (cases "n = ?nd")
      case True
      with nm have "m \<in> N" by auto
      from inside [OF this] True nm u show ?thesis by simp
    next
      case False
      note n = this
      show ?thesis
      proof (cases "m = ?nd")
        case True
        with nm have "n \<in> N" by auto
        from inside [OF this] True nm u show ?thesis by simp
      next
        case False
        with n nm apart [of n m] show ?thesis by simp
      qed
    qed
  qed
qed

lemma fresh_node_frame:
  assumes ok: "arena_ok s N ah" and m: "m \<in> N"
  shows "getKey (fresh_node s h key prefix) m = getKey s m"
    "getKeyPrefix (fresh_node s h key prefix) m = getKeyPrefix s m"
    "unat k < ah m \<Longrightarrow> getNext (fresh_node s h key prefix) m k = getNext s m k"
    "unat k < ah m \<Longrightarrow> getPrev (fresh_node s h key prefix) m k = getPrev s m k"
proof -
  let ?s' = "fresh_node s h key prefix"
  from ok have wf: "len_nodes s \<le> length (nodes s)"
    by (simp add: arena_ok_def)
  note hd = arena_header [OF ok m]
  from ok m have en: "node_end m (ah m) \<le> len_nodes s"
    by (simp add: arena_ok_def)
  from fresh_node_cap [OF wf, of h key prefix]
  have cap: "len_nodes s \<le> length (nodes ?s')" by simp
  have lt: "unat m < len_nodes ?s'"
    using hd(1) by simp
  show "getKey ?s' m = getKey s m"
    using getKey_eq [of m ?s'] getKey_ok [OF ok m] lt hd en cap
    by (simp add: load_fresh_node_old [OF wf] del: load_le.simps)
  show "getKeyPrefix ?s' m = getKeyPrefix s m"
    using getKeyPrefix_eq [of m ?s'] getKeyPrefix_ok [OF ok m] lt hd en cap
    by (simp add: load_fresh_node_old [OF wf] del: load_le.simps)
  {
    assume k: "unat k < ah m"
    note sl = arena_slot [OF ok m k]
    show "getNext ?s' m k = getNext s m k"
      using getNext_eq [of m ?s' k] getNext_ok [OF ok m k] lt sl en cap
      by (simp add: load_fresh_node_old [OF wf] del: load_le.simps)
    show "getPrev ?s' m k = getPrev s m k"
      using getPrev_eq [of m ?s' k] getPrev_ok [OF ok m k] lt sl en cap
      by (simp add: load_fresh_node_old [OF wf] del: load_le.simps)
  }
qed

lemma fresh_node_own:
  assumes ok: "arena_ok s N ah" and room: "len_nodes s + 16 + 8 * h < 2 ^ 32"
  shows "getKey (fresh_node s h key prefix) (word_of_nat (len_nodes s)) = Inr key"
    "getKeyPrefix (fresh_node s h key prefix) (word_of_nat (len_nodes s)) = Inr prefix"
proof -
  let ?nd = "word_of_nat (len_nodes s) :: u32"
  let ?s' = "fresh_node s h key prefix"
  from room have u: "unat ?nd = len_nodes s"
    by (simp add: unat_of_nat32)
  from ok have wf: "len_nodes s \<le> length (nodes s)"
    by (simp add: arena_ok_def)
  note cap = fresh_node_cap [OF wf, of h key prefix]
  show "getKey ?s' ?nd = Inr key"
    using getKey_eq [of ?nd ?s'] u cap
    by (simp add: key_addr_def off_key_def load_fresh_node_key [OF wf] del: load_le.simps)
  show "getKeyPrefix ?s' ?nd = Inr prefix"
    using getKeyPrefix_eq [of ?nd ?s'] u cap
    by (simp add: prefix_addr_def off_prefix_def load_fresh_node_prefix [OF wf] del: load_le.simps)
qed

section \<open>Splicing a node in\<close>

lemma spliced_fields [simp]:
  "len_nodes (spliced s nd l p n) = len_nodes s" "head (spliced s nd l p n) = head s"
  "tail (spliced s nd l p n) = tail s" "height (spliced s nd l p n) = height s"
  "storage (spliced s nd l p n) = storage s"
  "arena_ok (spliced s nd l p n) N ah = arena_ok s N ah"
  by (simp_all add: spliced_def)


lemma spliced_next:
  assumes ok: "arena_ok s N ah" and nd: "nd \<in> N" "unat l < ah nd"
    and p: "p \<in> N" "unat l < ah p" and n: "n \<in> N" "unat l < ah n"
    and m: "m \<in> N" "unat k < ah m" and ne: "p \<noteq> nd"
  shows "getNext (spliced s nd l p n) m k
     = (if m = p \<and> k = l then Inr nd else if m = nd \<and> k = l then Inr n else getNext s m k)"
proof -
  let ?s1 = "put32 s (next_addr nd l) n"
  let ?s2 = "put32 ?s1 (prev_addr nd l) p"
  let ?s3 = "put32 ?s2 (next_addr p l) nd"
  have ok1: "arena_ok ?s1 N ah" and ok2: "arena_ok ?s2 N ah" and ok3: "arena_ok ?s3 N ah"
    using ok by simp_all
  have "getNext (spliced s nd l p n) m k = getNext ?s3 m k"
    unfolding spliced_def by (rule getNext_put_prev [OF ok3 n m])
  also have "\<dots> = (if m = p \<and> k = l then Inr nd else getNext ?s2 m k)"
    by (rule getNext_put_next [OF ok2 p m])
  also have "getNext ?s2 m k = getNext ?s1 m k"
    by (rule getNext_put_prev [OF ok1 nd m])
  also have "\<dots> = (if m = nd \<and> k = l then Inr n else getNext s m k)"
    by (rule getNext_put_next [OF ok nd m])
  finally show ?thesis .
qed

lemma spliced_prev:
  assumes ok: "arena_ok s N ah" and nd: "nd \<in> N" "unat l < ah nd"
    and p: "p \<in> N" "unat l < ah p" and n: "n \<in> N" "unat l < ah n"
    and m: "m \<in> N" "unat k < ah m" and ne: "n \<noteq> nd"
  shows "getPrev (spliced s nd l p n) m k
     = (if m = n \<and> k = l then Inr nd else if m = nd \<and> k = l then Inr p else getPrev s m k)"
proof -
  let ?s1 = "put32 s (next_addr nd l) n"
  let ?s2 = "put32 ?s1 (prev_addr nd l) p"
  let ?s3 = "put32 ?s2 (next_addr p l) nd"
  have ok1: "arena_ok ?s1 N ah" and ok2: "arena_ok ?s2 N ah" and ok3: "arena_ok ?s3 N ah"
    using ok by simp_all
  have "getPrev (spliced s nd l p n) m k
      = (if m = n \<and> k = l then Inr nd else getPrev ?s3 m k)"
    unfolding spliced_def by (rule getPrev_put_prev [OF ok3 n m])
  also have "getPrev ?s3 m k = getPrev ?s2 m k"
    by (rule getPrev_put_next [OF ok2 p m])
  also have "\<dots> = (if m = nd \<and> k = l then Inr p else getPrev ?s1 m k)"
    by (rule getPrev_put_prev [OF ok1 nd m])
  also have "getPrev ?s1 m k = getPrev s m k"
    by (rule getPrev_put_next [OF ok nd m])
  finally show ?thesis .
qed

lemma spliced_keys:
  assumes ok: "arena_ok s N ah" and nd: "nd \<in> N" "unat l < ah nd"
    and p: "p \<in> N" "unat l < ah p" and n: "n \<in> N" "unat l < ah n"
    and m: "m \<in> N"
  shows "getKey (spliced s nd l p n) m = getKey s m"
    "getKeyPrefix (spliced s nd l p n) m = getKeyPrefix s m"
proof -
  let ?s1 = "put32 s (next_addr nd l) n"
  let ?s2 = "put32 ?s1 (prev_addr nd l) p"
  let ?s3 = "put32 ?s2 (next_addr p l) nd"
  have ok1: "arena_ok ?s1 N ah" and ok2: "arena_ok ?s2 N ah" and ok3: "arena_ok ?s3 N ah"
    using ok by simp_all
  show "getKey (spliced s nd l p n) m = getKey s m"
    unfolding spliced_def
    by (simp add: getKey_put_link [OF ok3 n m] getKey_put_link [OF ok2 p m]
        getKey_put_link [OF ok1 nd m] getKey_put_link [OF ok nd m])
  show "getKeyPrefix (spliced s nd l p n) m = getKeyPrefix s m"
    unfolding spliced_def
    by (simp add: getKeyPrefix_put_link [OF ok3 n m] getKeyPrefix_put_link [OF ok2 p m]
        getKeyPrefix_put_link [OF ok1 nd m] getKeyPrefix_put_link [OF ok nd m])
qed







subsection \<open>Splicing a node into one level\<close>


lemma height_upd_reads [simp]:
  "getNext (s\<lparr>height := h\<rparr>) n l = getNext s n l"
  "getPrev (s\<lparr>height := h\<rparr>) n l = getPrev s n l"
  "getKey (s\<lparr>height := h\<rparr>) n = getKey s n"
  "getKeyPrefix (s\<lparr>height := h\<rparr>) n = getKeyPrefix s n"
  "key_of (s\<lparr>height := h\<rparr>) n = key_of s n"
  "arena_ok (s\<lparr>height := h\<rparr>) N ah = arena_ok s N ah"
  by (simp_all add: getNext_def getPrev_def getKey_def getKeyPrefix_def key_of_def arena_ok_def
      node_def read32_def read64_def split: sum.splits)

lemma linked_height_upd [simp]: "linked (s\<lparr>height := h\<rparr>) l xs = linked s l xs"
  by (rule linked_cong) simp_all

lemma key_less_height_upd [simp]: "key_less le (s\<lparr>height := h\<rparr>) = key_less le s"
  by (simp add: key_less_def fun_eq_iff)






section \<open>Searches in a small skiplist\<close>

lemma one_key_list_facts:
  "head one_key_list = 0" "tail one_key_list = 176" "storage one_key_list = sample_storage"
  "height one_key_list = 1" "len_nodes one_key_list = 376"
  "arena_ok one_key_list {0, 176, 352} ((\<lambda>n. 20)(352 := 1))"
  "getNext one_key_list 0 0 = Inr 352" "getNext one_key_list 352 0 = Inr 176"
  "getPrev one_key_list 176 0 = Inr 352" "getPrev one_key_list 352 0 = Inr 0"
  "getKey one_key_list 352 = Inr 1" "getKeyPrefix one_key_list 352 = Inr 98"
  "\<And>l. 0 < unat l \<Longrightarrow> unat l < 20 \<Longrightarrow> getNext one_key_list 0 l = Inr 176"
proof -
  have "(0 :: int) \<le> maxAlloc" by (simp add: maxAlloc_def)
  from NewSkiplist_ok [OF this, of sample_storage]
  obtain s0 where s0: "NewSkiplist sample_storage 0 = Inr s0"
    and f0: "head s0 = 0" "tail s0 = 176" "height s0 = 1" "storage s0 = sample_storage"
      "len_nodes s0 = 352"
    and ok0: "arena_ok s0 {0, 176} (\<lambda>n. 20)"
    and l0: "\<And>l. unat l < 20 \<Longrightarrow> getNext s0 0 l = Inr 176 \<and> getPrev s0 176 l = Inr 0"
    by blast
  let ?s1 = "fresh_node s0 1 1 98"
  let ?ah = "(\<lambda>n. 20)(352 := 1 :: nat)"
  let ?N = "{0, 176, 352} :: u32 set"
  have e: "one_key_list = spliced ?s1 352 0 0 176"
    by (simp add: one_key_list_def s0)
  have ok1: "arena_ok ?s1 ?N ?ah"
    using fresh_node_arena(2) [OF ok0, of 1 1 98] f0
    by (simp add: insert_commute)
  have own: "getKey ?s1 352 = Inr 1" "getKeyPrefix ?s1 352 = Inr 98"
    using fresh_node_own [OF ok0, of 1 1 98] f0 by simp_all
  have old: "getNext ?s1 0 l = Inr 176" "getPrev ?s1 176 l = Inr 0" if "unat l < 20" for l
    using fresh_node_frame(3,4) [OF ok0, of _ l 1 1 98] l0 [OF that] that by simp_all
  note wr = spliced_next [OF ok1, of 352 0 0 176] spliced_prev [OF ok1, of 352 0 0 176]
  show "head one_key_list = 0" "tail one_key_list = 176" "storage one_key_list = sample_storage"
    "height one_key_list = 1" "len_nodes one_key_list = 376"
    unfolding e using f0 by simp_all
  show "arena_ok one_key_list ?N ?ah"
    unfolding e using ok1 by simp
  show "getNext one_key_list 0 0 = Inr 352" "getNext one_key_list 352 0 = Inr 176"
    unfolding e using wr(1) [of 0 0] wr(1) [of 352 0] by simp_all
  show "getPrev one_key_list 176 0 = Inr 352" "getPrev one_key_list 352 0 = Inr 0"
    unfolding e using wr(2) [of 176 0] wr(2) [of 352 0] by simp_all
  show "getKey one_key_list 352 = Inr 1" "getKeyPrefix one_key_list 352 = Inr 98"
    unfolding e using spliced_keys [OF ok1, of 352 0 0 176 352] own by simp_all
  show "getNext one_key_list 0 l = Inr 176" if "0 < unat l" "unat l < 20" for l
  proof -
    from that have "l \<noteq> 0" by auto
    with wr(1) [of 0 l] old(1) [OF that(2)] that show ?thesis
      unfolding e by simp
  qed
qed

lemma sample_compare:
  "Compare sample_storage [98] 1 = 0" "0 < Compare sample_storage [98, 1] 1"
  "Compare sample_storage [97] 1 < 0"
  by (simp_all add: sample_storage_def table_storage_def sample_keys_def)

lemma search_b:
  "findSpliceForLevel one_key_list [98] 98 0 0 = Some (Inr (one_key_list, 0, 352, True, [352]))"
  unfolding findSpliceForLevel_def
  using loop_equal_found [of one_key_list 0 0 352 98 1 "[98]" "[]"]
  by (simp add: one_key_list_facts sample_compare)

lemma search_c:
  "findSpliceForLevel one_key_list [99] 99 0 0 = Some (Inr (one_key_list, 352, 176, False, []))"
proof -
  have "findSpliceForLevel_loop one_key_list [99] 99 0 0 []
      = findSpliceForLevel_loop one_key_list [99] 99 0 352 []"
    by (rule loop_less [of one_key_list 0 0 352 98]) (simp_all add: one_key_list_facts)
  also have "\<dots> = Some (Inr (one_key_list, 352, 176, False, []))"
    using loop_tail [of one_key_list 352 0 "[99]" 99 "[]"] by (simp add: one_key_list_facts)
  finally show ?thesis
    by (simp add: findSpliceForLevel_def)
qed

lemma sample_passes:
  "passes one_key_list [98, 1] 98 352" "\<not> passes one_key_list [98, 1] 98 176"
  "probe_ok one_key_list 98 352" "probe_ok one_key_list 98 176"
  "\<not> hits one_key_list [98, 1] 98 176" "hits one_key_list [98] 98 352"
  "\<not> passes one_key_list [98] 98 352"
  by (simp_all add: passes_def hits_def probe_ok_def one_key_list_facts sample_compare)

section \<open>Insertion keeps the skiplist well formed\<close>










lemma bytes_compare_range: "bytes_compare a b \<in> {- 1, 0, 1}"
  by (induction a b rule: bytes_compare.induct) auto







text \<open>
  C1. A call of \<^verbatim>\<open>findSpliceForLevel\<close> walks the next pointers of its level from the
  start node. It advances past a node (\<open>passes\<close>) when the node is not the tail
  and its cached prefix is smaller than the target prefix, or equal to it with
  \<^verbatim>\<open>Compare\<close> reporting the node's key smaller than the target. It stops at the
  first node it does not pass: the tail, a node with a larger prefix, or a node
  with an equal prefix whose key is not smaller; \<^verbatim>\<open>found\<close> is true exactly in the
  last case with \<^verbatim>\<open>Compare\<close> reporting equality (\<open>hits\<close>). So when \<open>ns\<close> are the nodes
  that follow the start node and one of them is not passed, the call returns,
  \<^verbatim>\<open>prev\<close> is the last node before the one stopped at and \<^verbatim>\<open>next\<close> is the node
  stopped at. Whatever the arena holds, a call that returns gives a \<^verbatim>\<open>next\<close> that
  is the successor of \<^verbatim>\<open>prev\<close> at the level and that the walk does not pass.
\<close>

theorem findSpliceForLevel_walk:
  "(next_chain s level start ns \<and> (\<forall>n\<in>set ns. probe_ok s prefix n)
      \<and> (\<exists>n\<in>set ns. \<not> passes s key prefix n)
    \<longrightarrow> (\<exists>c. findSpliceForLevel s key prefix level start
          = Some (Inr (s, last (start # takeWhile (passes s key prefix) ns),
              hd (dropWhile (passes s key prefix) ns),
              hits s key prefix (hd (dropWhile (passes s key prefix) ns)), c))))
   \<and> (findSpliceForLevel s key prefix level start = Some (Inr (s', p, n, f, c))
    \<longrightarrow> getNext s p level = Inr n \<and> (f \<longleftrightarrow> hits s key prefix n) \<and> \<not> passes s key prefix n)"
proof (intro conjI impI)
  assume a: "next_chain s level start ns \<and> (\<forall>n\<in>set ns. probe_ok s prefix n)
      \<and> (\<exists>n\<in>set ns. \<not> passes s key prefix n)"
  then have "next_chain s level start ns" "\<forall>n\<in>set ns. probe_ok s prefix n"
    "\<exists>n\<in>set ns. \<not> passes s key prefix n"
    by blast+
  from walk_chain [OF this, of "[]"]
  show "\<exists>c. findSpliceForLevel s key prefix level start
          = Some (Inr (s, last (start # takeWhile (passes s key prefix) ns),
              hd (dropWhile (passes s key prefix) ns),
              hits s key prefix (hd (dropWhile (passes s key prefix) ns)), c))"
    unfolding findSpliceForLevel_def by blast
next
  assume "findSpliceForLevel s key prefix level start = Some (Inr (s', p, n, f, c))"
  then have "loop_post s key prefix level [] (Inr (s', p, n, f, c))"
    unfolding findSpliceForLevel_def by (rule loop_result)
  then show "getNext s p level = Inr n" "f \<longleftrightarrow> hits s key prefix n" "\<not> passes s key prefix n"
    unfolding loop_post_def by blast+
qed

theorem findSpliceForLevel_walk_witness:
  "next_chain one_key_list 0 0 [352, 176]
   \<and> probe_ok one_key_list 98 352 \<and> probe_ok one_key_list 98 176
   \<and> passes one_key_list [98, 1] 98 352 \<and> \<not> passes one_key_list [98, 1] 98 176
   \<and> (\<exists>c. findSpliceForLevel one_key_list [98, 1] 98 0 0
         = Some (Inr (one_key_list, 352, 176, False, c)))
   \<and> findSpliceForLevel one_key_list [98] 98 0 0
       = Some (Inr (one_key_list, 0, 352, True, [352]))
   \<and> getNext one_key_list 0 0 = Inr 352 \<and> hits one_key_list [98] 98 352
   \<and> \<not> passes one_key_list [98] 98 352"
proof -
  have h: "next_chain one_key_list 0 0 [352, 176]
     \<and> (\<forall>n\<in>set [352, 176]. probe_ok one_key_list 98 n)
     \<and> (\<exists>n\<in>set [352, 176]. \<not> passes one_key_list [98, 1] 98 n)"
    by (simp add: one_key_list_facts sample_passes)
  from findSpliceForLevel_walk [of one_key_list 0 0 "[352, 176]" 98 "[98, 1]",
      THEN conjunct1, rule_format, OF h]
  have a: "\<exists>c. findSpliceForLevel one_key_list [98, 1] 98 0 0
         = Some (Inr (one_key_list, 352, 176, False, c))"
    by (simp add: sample_passes)
  from findSpliceForLevel_walk [of one_key_list 0 0 "[]" 98 "[98]" one_key_list 0 352 True "[352]",
      THEN conjunct2, rule_format, OF search_b]
  have b: "getNext one_key_list 0 0 = Inr 352 \<and> hits one_key_list [98] 98 352
     \<and> \<not> passes one_key_list [98] 98 352"
    by simp
  from h a b search_b show ?thesis
    by (simp add: sample_passes)
qed

text \<open>
  C7. The result of a splice search lists the candidate nodes for which
  \<^verbatim>\<open>Storage.Compare\<close> was called. None of them is the tail and each has a cached
  prefix equal to the target prefix. At a candidate that is the tail, or whose
  prefix differs from the target prefix, one round of the loop stops or advances
  by the comparison of the prefixes and leaves the list of calls as it was.
\<close>

theorem compare_only_on_equal_prefix:
  "(findSpliceForLevel s key prefix level start = Some (Inr (s', p, n, f, c))
      \<longrightarrow> (\<forall>x\<in>set c. x \<noteq> tail s \<and> getKeyPrefix s x = Inr prefix))
   \<and> (getNext s prev level = Inr nx \<and> nx \<noteq> tail s \<and> getKeyPrefix s nx = Inr q \<and> q \<noteq> prefix
      \<longrightarrow> findSpliceForLevel_loop s key prefix level prev calls
          = (if prefix < q then Some (Inr (s, prev, nx, False, calls))
             else findSpliceForLevel_loop s key prefix level nx calls))
   \<and> (getNext s prev level = Inr (tail s)
      \<longrightarrow> findSpliceForLevel_loop s key prefix level prev calls
          = Some (Inr (s, prev, tail s, False, calls)))"
proof (intro conjI impI)
  assume "findSpliceForLevel s key prefix level start = Some (Inr (s', p, n, f, c))"
  then have "loop_post s key prefix level [] (Inr (s', p, n, f, c))"
    unfolding findSpliceForLevel_def by (rule loop_result)
  then show "\<forall>x\<in>set c. x \<noteq> tail s \<and> getKeyPrefix s x = Inr prefix"
    unfolding loop_post_def by auto
next
  assume a: "getNext s prev level = Inr nx \<and> nx \<noteq> tail s \<and> getKeyPrefix s nx = Inr q
      \<and> q \<noteq> prefix"
  show "findSpliceForLevel_loop s key prefix level prev calls
          = (if prefix < q then Some (Inr (s, prev, nx, False, calls))
             else findSpliceForLevel_loop s key prefix level nx calls)"
  proof (cases "prefix < q")
    case True
    with a loop_greater [of s prev level nx q prefix key calls] show ?thesis
      by simp
  next
    case False
    with a have "q < prefix" by auto
    with a loop_less [of s prev level nx q prefix key calls] False show ?thesis
      by simp
  qed
next
  assume "getNext s prev level = Inr (tail s)"
  then show "findSpliceForLevel_loop s key prefix level prev calls
          = Some (Inr (s, prev, tail s, False, calls))"
    by (rule loop_tail)
qed

theorem compare_only_on_equal_prefix_witness:
  "findSpliceForLevel one_key_list [98] 98 0 0 = Some (Inr (one_key_list, 0, 352, True, [352]))
   \<and> (352 :: u32) \<in> set [352]
   \<and> 352 \<noteq> tail one_key_list \<and> getKeyPrefix one_key_list 352 = Inr 98
   \<and> getNext one_key_list 0 0 = Inr 352 \<and> (98 :: KeyPrefix) \<noteq> 99
   \<and> findSpliceForLevel_loop one_key_list [99] 99 0 0 []
       = findSpliceForLevel_loop one_key_list [99] 99 0 352 []
   \<and> getNext one_key_list 352 0 = Inr (tail one_key_list)
   \<and> findSpliceForLevel_loop one_key_list [99] 99 0 352 []
       = Some (Inr (one_key_list, 352, tail one_key_list, False, []))"
proof -
  note T = compare_only_on_equal_prefix
  from T [where s = one_key_list and key = "[98]" and prefix = 98 and level = 0
      and start = 0 and s' = one_key_list and p = 0 and n = 352 and f = True and c = "[352]",
      THEN conjunct1, rule_format, OF search_b, of 352]
  have a: "352 \<noteq> tail one_key_list \<and> getKeyPrefix one_key_list 352 = Inr 98"
    by simp
  have h2: "getNext one_key_list 0 0 = Inr 352 \<and> 352 \<noteq> tail one_key_list
      \<and> getKeyPrefix one_key_list 352 = Inr 98 \<and> (98 :: KeyPrefix) \<noteq> 99"
    by (simp add: one_key_list_facts)
  have b: "findSpliceForLevel_loop one_key_list [99] 99 0 0 []
       = findSpliceForLevel_loop one_key_list [99] 99 0 352 []"
    using T [where s = one_key_list and key = "[99]" and prefix = 99 and level = 0
        and prev = 0 and nx = 352 and q = 98 and calls = "[]",
        THEN conjunct2, THEN conjunct1, rule_format, OF h2]
    by simp
  have h3: "getNext one_key_list 352 0 = Inr (tail one_key_list)"
    by (simp add: one_key_list_facts)
  have c: "findSpliceForLevel_loop one_key_list [99] 99 0 352 []
       = Some (Inr (one_key_list, 352, tail one_key_list, False, []))"
    using T [where s = one_key_list and key = "[99]" and prefix = 99 and level = 0
        and prev = 352 and calls = "[]",
        THEN conjunct2, THEN conjunct2, rule_format, OF h3] .
  from a b c h2 h3 search_b show ?thesis
    by simp
qed

text \<open>
  C10. \<^verbatim>\<open>findSpliceForLevel\<close> mutates nothing: whenever a call returns, found or
  not, the skiplist it leaves is the skiplist it was given, with the same arena
  bytes, slice length, head, tail and height. (\<^verbatim>\<open>Compare\<close> is a function of the
  storage, without effects.)
\<close>

theorem findSpliceForLevel_no_mutation:
  "findSpliceForLevel s key prefix level start = Some (Inr (s', p, n, f, c))
     \<longrightarrow> s' = s \<and> nodes s' = nodes s \<and> len_nodes s' = len_nodes s
       \<and> head s' = head s \<and> tail s' = tail s \<and> height s' = height s"
proof
  assume "findSpliceForLevel s key prefix level start = Some (Inr (s', p, n, f, c))"
  then have "loop_post s key prefix level [] (Inr (s', p, n, f, c))"
    unfolding findSpliceForLevel_def by (rule loop_result)
  then have "s' = s"
    unfolding loop_post_def by blast
  then show "s' = s \<and> nodes s' = nodes s \<and> len_nodes s' = len_nodes s
       \<and> head s' = head s \<and> tail s' = tail s \<and> height s' = height s"
    by simp
qed

theorem findSpliceForLevel_no_mutation_witness:
  "findSpliceForLevel one_key_list [98] 98 0 0 = Some (Inr (one_key_list, 0, 352, True, [352]))
   \<and> findSpliceForLevel one_key_list [99] 99 0 0 = Some (Inr (one_key_list, 352, 176, False, []))
   \<and> nodes one_key_list = nodes one_key_list"
  using findSpliceForLevel_no_mutation [of one_key_list "[98]" 98 0 0 one_key_list 0 352 True "[352]"]
    findSpliceForLevel_no_mutation [of one_key_list "[99]" 99 0 0 one_key_list 352 176 False "[]"]
    search_b search_c
  by simp

section \<open>The sample keys as a batch\<close>






section \<open>Claims about insertion\<close>







end
